theory Spec2Isabelle
  imports Main "HOL-Library.Word"
begin

section \<open>The shared-memory queue of shmemq.c\<close>

text \<open>
  The development embeds \<^verbatim>\<open>shmemq.c\<close> on an LP64 platform: \<^verbatim>\<open>unsigned long\<close> and
  \<^verbatim>\<open>size_t\<close> are 64-bit words, \<^verbatim>\<open>unsigned int\<close> and \<^verbatim>\<open>int\<close> are 32-bit words (an
  \<^verbatim>\<open>int\<close> is read through \<open>sint\<close>). Arithmetic on words wraps around as in C.
\<close>

subsection \<open>Data\<close>

type_synonym byte = "8 word"
type_synonym ulong = "64 word"
type_synonym uint = "32 word"

text \<open>What can stop a call from returning normally.\<close>

datatype fault =
    DivideByZero    \<comment> \<open>\<^verbatim>\<open>x % 0\<close>\<close>
  | OutOfBounds     \<comment> \<open>a \<^verbatim>\<open>memcpy\<close> that leaves the caller's buffer or the shared object\<close>
  | LockUnavailable \<comment> \<open>locking a mutex that is held or was never initialised\<close>
  | NotOwner        \<comment> \<open>unlocking a mutex that is not held\<close>

text \<open>
  \<^verbatim>\<open>pthread_mutex_t\<close>, as far as a sequential run can observe it. The attribute records
  \<^verbatim>\<open>pthread_mutexattr_setpshared\<close>.
\<close>

datatype mutexattr = Process_Private | Process_Shared

datatype mutex = Uninitialised | Unlocked mutexattr | Locked mutexattr

text \<open>
  \<^verbatim>\<open>struct shmemq_info\<close>: the content of the shared segment. \<open>data\<close> is the list of all
  bytes of the shared object from the member \<^verbatim>\<open>data\<close> on: the \<open>max_size\<close> bytes of the ring
  and, behind them, the bytes that the padding of the structure leaves over (the object has
  \<open>max_size + sizeof(struct shmemq_info) - 1\<close> bytes, and \<^verbatim>\<open>data\<close> does not start at the last
  byte of the structure). A copy that runs past \<open>max_size\<close> lands on these bytes; one that
  runs past the object is a fault.
\<close>

record shmemq_info =
  lock :: mutex
  read_index :: ulong
  write_index :: ulong
  data :: "byte list"

text \<open>
  \<^verbatim>\<open>struct _shmemq\<close>: the process-local handle. \<open>mem\<close> is the address at which the
  segment is mapped, in pages; the segment itself is passed to the operations next to the
  handle.
\<close>

record shmemq =
  max_count :: ulong
  element_size :: uint
  max_size :: ulong
  name :: string
  shmem_fd :: int
  mmap_size :: ulong
  mem :: nat

subsection \<open>Library calls used by the ring buffer\<close>

definition pthread_mutex_lock :: "mutex \<Rightarrow> fault + mutex" where
  "pthread_mutex_lock m = (case m of Unlocked a \<Rightarrow> Inr (Locked a) | _ \<Rightarrow> Inl LockUnavailable)"

definition pthread_mutex_unlock :: "mutex \<Rightarrow> fault + mutex" where
  "pthread_mutex_unlock m = (case m of Locked a \<Rightarrow> Inr (Unlocked a) | _ \<Rightarrow> Inl NotOwner)"

text \<open>
  \<^verbatim>\<open>memcpy(&dst[doff], &src[soff], n)\<close> on two byte arrays. Both ranges have to lie
  inside their array.
\<close>

definition memcpy :: "byte list \<Rightarrow> nat \<Rightarrow> byte list \<Rightarrow> nat \<Rightarrow> nat \<Rightarrow> fault + byte list" where
  "memcpy dst doff src soff n =
     (if doff + n \<le> length dst \<and> soff + n \<le> length src
      then Inr (take doff dst @ take n (drop soff src) @ drop (doff + n) dst)
      else Inl OutOfBounds)"

subsection \<open>The ring buffer\<close>

text \<open>
  \<^verbatim>\<open>shmemq_try_enqueue(self, element, len)\<close>. \<open>m\<close> is \<^verbatim>\<open>*self->mem\<close>, \<open>element\<close> the
  caller's buffer. The comparison \<^verbatim>\<open>len != self->element_size\<close> is made on \<^verbatim>\<open>unsigned int\<close>,
  that is on the 32 bits of \<open>len\<close>; \<^verbatim>\<open>memcpy\<close> receives \<open>len\<close> converted to \<^verbatim>\<open>size_t\<close>,
  that is sign-extended. The result is the returned flag and the segment afterwards.
\<close>

definition shmemq_try_enqueue ::
  "shmemq \<Rightarrow> shmemq_info \<Rightarrow> byte list \<Rightarrow> uint \<Rightarrow> fault + (bool \<times> shmemq_info)" where
  "shmemq_try_enqueue self m element len =
     (if len \<noteq> element_size self then Inr (False, m)
      else case pthread_mutex_lock (lock m) of
        Inl f \<Rightarrow> Inl f
      | Inr l \<Rightarrow>
          if write_index m - read_index m \<ge> max_size self then
            (case pthread_mutex_unlock l of
               Inl f \<Rightarrow> Inl f
             | Inr l' \<Rightarrow> Inr (False, m\<lparr>lock := l'\<rparr>))
          else if max_size self = 0 then Inl DivideByZero
          else
            (case memcpy (data m) (unat (write_index m mod max_size self)) element 0
                    (unat (scast len :: ulong)) of
               Inl f \<Rightarrow> Inl f
             | Inr d \<Rightarrow>
                 (case pthread_mutex_unlock l of
                    Inl f \<Rightarrow> Inl f
                  | Inr l' \<Rightarrow>
                      Inr (True, m\<lparr>lock := l', data := d,
                                  write_index := write_index m + ucast (element_size self)\<rparr>))))"

text \<open>
  \<^verbatim>\<open>shmemq_try_dequeue(self, element, len)\<close>. \<open>element\<close> is the caller's output buffer;
  the result is the returned flag, the segment and the output buffer afterwards.
\<close>

definition shmemq_try_dequeue ::
  "shmemq \<Rightarrow> shmemq_info \<Rightarrow> byte list \<Rightarrow> uint \<Rightarrow> fault + (bool \<times> shmemq_info \<times> byte list)" where
  "shmemq_try_dequeue self m element len =
     (if len \<noteq> element_size self then Inr (False, m, element)
      else case pthread_mutex_lock (lock m) of
        Inl f \<Rightarrow> Inl f
      | Inr l \<Rightarrow>
          if read_index m \<ge> write_index m then
            (case pthread_mutex_unlock l of
               Inl f \<Rightarrow> Inl f
             | Inr l' \<Rightarrow> Inr (False, m\<lparr>lock := l'\<rparr>, element))
          else if max_size self = 0 then Inl DivideByZero
          else
            (case memcpy element 0 (data m) (unat (read_index m mod max_size self))
                    (unat (scast len :: ulong)) of
               Inl f \<Rightarrow> Inl f
             | Inr e \<Rightarrow>
                 (case pthread_mutex_unlock l of
                    Inl f \<Rightarrow> Inl f
                  | Inr l' \<Rightarrow>
                      Inr (True, m\<lparr>lock := l',
                                  read_index := read_index m + ucast (element_size self)\<rparr>, e))))"

subsection \<open>Sequences of calls\<close>

text \<open>
  A client is a list of calls, each with the caller's buffer and the declared length. The
  run stops at the first fault; otherwise it yields what every call returned and the
  segment at the end.
\<close>

datatype call = Enqueue "byte list" uint | Dequeue "byte list" uint

datatype outcome = Enqueued bool | Dequeued bool "byte list"

fun run_calls :: "shmemq \<Rightarrow> shmemq_info \<Rightarrow> call list \<Rightarrow> fault + (outcome list \<times> shmemq_info)" where
  "run_calls h m [] = Inr ([], m)"
| "run_calls h m (Enqueue el len # cs) =
     (case shmemq_try_enqueue h m el len of
        Inl f \<Rightarrow> Inl f
      | Inr (b, m') \<Rightarrow>
          (case run_calls h m' cs of
             Inl f \<Rightarrow> Inl f
           | Inr (os, m'') \<Rightarrow> Inr (Enqueued b # os, m'')))"
| "run_calls h m (Dequeue out len # cs) =
     (case shmemq_try_dequeue h m out len of
        Inl f \<Rightarrow> Inl f
      | Inr (b, m', e) \<Rightarrow>
          (case run_calls h m' cs of
             Inl f \<Rightarrow> Inl f
           | Inr (os, m'') \<Rightarrow> Inr (Dequeued b e # os, m'')))"

text \<open>The payloads that successful enqueues took, and those that successful dequeues gave.\<close>

fun accepted :: "shmemq \<Rightarrow> call list \<Rightarrow> outcome list \<Rightarrow> byte list list" where
  "accepted h (Enqueue el len # cs) (Enqueued True # os) =
     take (unat (element_size h)) el # accepted h cs os"
| "accepted h (c # cs) (r # os) = accepted h cs os"
| "accepted h _ _ = []"

fun delivered :: "shmemq \<Rightarrow> outcome list \<Rightarrow> byte list list" where
  "delivered h [] = []"
| "delivered h (Dequeued True e # os) = take (unat (element_size h)) e # delivered h os"
| "delivered h (r # os) = delivered h os"

subsection \<open>Configurations and the invariant\<close>

text \<open>
  A handle as lines 40 to 42 of \<^verbatim>\<open>shmemq_new\<close> fill it, for sizes that the C types hold:
  the element size fits the \<^verbatim>\<open>int len\<close> of the two operations, and the product of count and
  size does not overflow \<^verbatim>\<open>unsigned long\<close>.
\<close>

definition configured :: "shmemq \<Rightarrow> bool" where
  "configured h \<longleftrightarrow>
     max_size h = max_count h * ucast (element_size h) \<and>
     unat (element_size h) < 2 ^ 31 \<and>
     unat (max_count h) * unat (element_size h) < 2 ^ 64"

text \<open>\<^verbatim>\<open>write_index - read_index\<close> in \<^verbatim>\<open>unsigned long\<close> arithmetic.\<close>

definition used :: "shmemq_info \<Rightarrow> nat" where
  "used m = unat (write_index m - read_index m)"

text \<open>The write index has not wrapped past \<open>2 ^ 64\<close> while the read index has not.\<close>

definition unwrapped :: "shmemq_info \<Rightarrow> bool" where
  "unwrapped m \<longleftrightarrow> unat (read_index m) \<le> unat (write_index m)"

definition ring_inv :: "shmemq \<Rightarrow> shmemq_info \<Rightarrow> bool" where
  "ring_inv h m \<longleftrightarrow>
     lock m = Unlocked Process_Shared \<and>
     unat (max_size h) \<le> length (data m) \<and>
     unat (element_size h) dvd unat (read_index m) \<and>
     unat (element_size h) dvd used m \<and>
     used m \<le> unat (max_size h)"

text \<open>The segment after a successful enqueue, after a successful dequeue, and the oldest element.\<close>

definition store :: "shmemq \<Rightarrow> shmemq_info \<Rightarrow> byte list \<Rightarrow> shmemq_info" where
  "store h m el =
     m\<lparr>data := take (unat (write_index m) mod unat (max_size h)) (data m) @
                take (unat (element_size h)) el @
                drop (unat (write_index m) mod unat (max_size h) + unat (element_size h)) (data m),
       write_index := write_index m + ucast (element_size h)\<rparr>"

definition advance :: "shmemq \<Rightarrow> shmemq_info \<Rightarrow> shmemq_info" where
  "advance h m = m\<lparr>read_index := read_index m + ucast (element_size h)\<rparr>"

definition front :: "shmemq \<Rightarrow> shmemq_info \<Rightarrow> byte list" where
  "front h m = take (unat (element_size h))
                 (drop (unat (read_index m) mod unat (max_size h)) (data m))"

text \<open>The \<open>k\<close>-th element behind the read index, and the queue that the segment holds.\<close>

definition slot :: "shmemq \<Rightarrow> shmemq_info \<Rightarrow> nat \<Rightarrow> byte list" where
  "slot h m k = take (unat (element_size h))
     (drop ((unat (read_index m) + k * unat (element_size h)) mod unat (max_size h)) (data m))"

definition pending :: "shmemq \<Rightarrow> shmemq_info \<Rightarrow> byte list list" where
  "pending h m = map (slot h m) [0..<used m div unat (element_size h)]"

definition fifo_rel ::
  "shmemq \<Rightarrow> shmemq_info \<Rightarrow> shmemq_info \<Rightarrow> byte list list \<Rightarrow> byte list list \<Rightarrow> bool" where
  "fifo_rel h m m' acc del \<longleftrightarrow>
     (if unwrapped m
      then \<exists>rest. pending h m @ acc = del @ rest \<and> (unwrapped m' \<longrightarrow> rest = pending h m')
      else del = [] \<and> \<not> unwrapped m')"

subsection \<open>The operating system, as far as the life cycle of a queue uses it\<close>

text \<open>
  \<^verbatim>\<open>shmemq_new\<close> only tells \<^verbatim>\<open>ENOENT\<close> from every other error; \<open>EACCES\<close> stands for
  the others.
\<close>

datatype errno = ENOENT | EACCES

text \<open>
  What the platform fixes and the source leaves open: the layout of
  \<^verbatim>\<open>struct shmemq_info\<close>, which depends on \<^verbatim>\<open>pthread_mutex_t\<close> and on the alignment of
  \<^verbatim>\<open>unsigned long\<close>, and the page size, all in bytes. The member \<^verbatim>\<open>data\<close>, one byte, lies at
  \<^verbatim>\<open>offsetof(struct shmemq_info, data)\<close> and is followed by the padding at the end of the
  structure, so \<^verbatim>\<open>sizeof(struct shmemq_info)\<close>, a \<^verbatim>\<open>size_t\<close>, is the offset plus one plus the
  padding.
\<close>

record platform =
  offsetof_data :: nat
  tail_padding :: nat
  page_size :: nat

definition sizeof_shmemq_info :: "platform \<Rightarrow> ulong" where
  "sizeof_shmemq_info P = of_nat (offsetof_data P + 1 + tail_padding P)"

text \<open>
  The state of the system as one process sees it: the named shared-memory objects with
  their content, the descriptors the process has open (each with the name of its object),
  the pages the process has mapped, and the number of live heap blocks.
\<close>

record os_state =
  objects :: "string \<rightharpoonup> shmemq_info"
  descriptors :: "int \<rightharpoonup> string"
  mapped :: "nat list"
  heap :: nat

text \<open>
  What the rest of the system decides during one \<^verbatim>\<open>shmemq_new\<close>: whether a call fails for
  a reason of its own, which descriptor and which address (a page number) it hands out,
  and what another process does between the \<^verbatim>\<open>shm_open\<close> of line 47 and the one of line
  50: nothing (\<open>None\<close>), or it creates the object and leaves it with the given content.
\<close>

record choices =
  open_denied :: bool
  create_denied :: bool
  ftruncate_fails :: bool
  mmap_fails :: bool
  next_fd :: nat
  next_addr :: nat
  peer_creates :: "shmemq_info option"

text \<open>A shared-memory object just created: no bytes, so nothing initialised.\<close>

definition empty_object :: shmemq_info where
  "empty_object = \<lparr>lock = Uninitialised, read_index = 0, write_index = 0, data = []\<rparr>"

text \<open>\<^verbatim>\<open>malloc\<close> and \<^verbatim>\<open>strdup\<close> take a heap block, \<^verbatim>\<open>free\<close> gives one back.\<close>

definition malloc :: "os_state \<Rightarrow> os_state" where
  "malloc os = os\<lparr>heap := Suc (heap os)\<rparr>"

definition free :: "os_state \<Rightarrow> os_state" where
  "free os = os\<lparr>heap := heap os - 1\<rparr>"

text \<open>
  \<^verbatim>\<open>shm_open(name, O_RDWR [| O_CREAT], mode)\<close>: the descriptor, or the \<^verbatim>\<open>errno\<close> that
  goes with the result -1.
\<close>

definition shm_open ::
  "os_state \<Rightarrow> string \<Rightarrow> bool \<Rightarrow> bool \<Rightarrow> nat \<Rightarrow> (errno + int) \<times> os_state" where
  "shm_open os nm o_creat denied fd =
     (if denied then (Inl EACCES, os)
      else case objects os nm of
        Some obj \<Rightarrow> (Inr (int fd), os\<lparr>descriptors := (descriptors os)(int fd \<mapsto> nm)\<rparr>)
      | None \<Rightarrow>
          if o_creat
          then (Inr (int fd), os\<lparr>objects := (objects os)(nm \<mapsto> empty_object),
                                   descriptors := (descriptors os)(int fd \<mapsto> nm)\<rparr>)
          else (Inl ENOENT, os))"

definition close :: "os_state \<Rightarrow> int \<Rightarrow> os_state" where
  "close os fd = os\<lparr>descriptors := (descriptors os)(fd := None)\<rparr>"

definition shm_unlink :: "os_state \<Rightarrow> string \<Rightarrow> os_state" where
  "shm_unlink os nm = os\<lparr>objects := (objects os)(nm := None)\<rparr>"

text \<open>
  \<^verbatim>\<open>ftruncate(fd, length)\<close> cuts or zero-extends the object; \<open>True\<close> is the result 0. Of an
  object of \<open>n\<close> bytes, those from \<^verbatim>\<open>offsetof(struct shmemq_info, data)\<close> on, \<open>n\<close> minus that
  offset, are the bytes of \<open>data\<close>. The length is an \<^verbatim>\<open>off_t\<close>, so a value with the top bit
  set is negative and refused.
\<close>

definition resize :: "nat \<Rightarrow> byte list \<Rightarrow> byte list" where
  "resize n xs = take n xs @ replicate (n - length xs) 0"

definition ftruncate :: "platform \<Rightarrow> os_state \<Rightarrow> int \<Rightarrow> ulong \<Rightarrow> bool \<Rightarrow> bool \<times> os_state" where
  "ftruncate P os fd len fails =
     (if fails \<or> sint len < 0 then (False, os)
      else case descriptors os fd of
        None \<Rightarrow> (False, os)
      | Some nm \<Rightarrow>
          (case objects os nm of
             None \<Rightarrow> (False, os)
           | Some obj \<Rightarrow>
               (True, os\<lparr>objects := (objects os)(nm \<mapsto>
                  obj\<lparr>data := resize (unat len - offsetof_data P) (data obj)\<rparr>)\<rparr>)))"

text \<open>
  \<^verbatim>\<open>mmap(NULL, length, PROT_READ | PROT_WRITE, MAP_SHARED, fd, 0)\<close> maps whole pages and
  refuses the length 0; \<open>None\<close> is \<^verbatim>\<open>MAP_FAILED\<close>. \<^verbatim>\<open>munmap(addr, length)\<close> unmaps the
  pages that the range touches and refuses the length 0.
\<close>

definition pages :: "platform \<Rightarrow> nat \<Rightarrow> nat" where
  "pages P n = (n + page_size P - 1) div page_size P"

definition mmap ::
  "platform \<Rightarrow> os_state \<Rightarrow> ulong \<Rightarrow> int \<Rightarrow> bool \<Rightarrow> nat \<Rightarrow> nat option \<times> os_state" where
  "mmap P os len fd fails addr =
     (if fails \<or> len = 0 \<or> descriptors os fd = None then (None, os)
      else (Some addr, os\<lparr>mapped := mapped os @ [addr..<addr + pages P (unat len)]\<rparr>))"

definition munmap :: "platform \<Rightarrow> os_state \<Rightarrow> nat \<Rightarrow> ulong \<Rightarrow> os_state" where
  "munmap P os addr len =
     (if len = 0 then os
      else os\<lparr>mapped :=
        filter (\<lambda>p. \<not> (addr \<le> p \<and> p < addr + pages P (unat len))) (mapped os)\<rparr>)"

definition pthread_mutex_init :: "mutexattr \<Rightarrow> mutex" where
  "pthread_mutex_init attr = Unlocked attr"

text \<open>A write through the shared mapping changes the object itself.\<close>

definition with_segment :: "os_state \<Rightarrow> string \<Rightarrow> (shmemq_info \<Rightarrow> shmemq_info) \<Rightarrow> os_state" where
  "with_segment os nm f =
     (case objects os nm of
        None \<Rightarrow> os
      | Some seg \<Rightarrow> os\<lparr>objects := (objects os)(nm \<mapsto> f seg)\<rparr>)"

text \<open>
  The step of another process between the two \<^verbatim>\<open>shm_open\<close> calls of \<^verbatim>\<open>shmemq_new\<close>.
\<close>

definition peer_step :: "os_state \<Rightarrow> string \<Rightarrow> shmemq_info option \<Rightarrow> os_state" where
  "peer_step os nm act =
     (case act of
        None \<Rightarrow> os
      | Some seg \<Rightarrow> os\<lparr>objects := (objects os)(nm \<mapsto> seg)\<rparr>)"

subsection \<open>Creation and teardown\<close>

text \<open>The label \<^verbatim>\<open>FAIL\<close> of \<^verbatim>\<open>shmemq_new\<close> (lines 82 to 89); \<open>None\<close> is \<^verbatim>\<open>NULL\<close>.\<close>

definition shmemq_new_fail :: "os_state \<Rightarrow> shmemq \<Rightarrow> shmemq option \<times> os_state" where
  "shmemq_new_fail os self =
     (let os1 = (if shmem_fd self \<noteq> - 1
                 then shm_unlink (close os (shmem_fd self)) (name self) else os);
          os2 = free os1;
          os3 = free os2
      in (None, os3))"

text \<open>
  Lines 59 to 80 of \<^verbatim>\<open>shmemq_new\<close>, once the descriptor is open: resize when created,
  map, initialise when created. The \<^verbatim>\<open>printf\<close> is left out.
\<close>

definition shmemq_new_map ::
  "platform \<Rightarrow> choices \<Rightarrow> os_state \<Rightarrow> shmemq \<Rightarrow> bool \<Rightarrow> shmemq option \<times> os_state" where
  "shmemq_new_map P ch os self created =
     (case (if created then ftruncate P os (shmem_fd self) (mmap_size self) (ftruncate_fails ch)
            else (True, os)) of
        (False, os1) \<Rightarrow> shmemq_new_fail os1 self
      | (True, os1) \<Rightarrow>
          (case mmap P os1 (mmap_size self) (shmem_fd self) (mmap_fails ch) (next_addr ch) of
             (None, os2) \<Rightarrow> shmemq_new_fail os2 self
           | (Some a, os2) \<Rightarrow>
               (Some (self\<lparr>mem := a\<rparr>),
                if created
                then with_segment os2 (name self)
                       (\<lambda>seg. seg\<lparr>read_index := 0, write_index := 0,
                                   lock := pthread_mutex_init Process_Shared\<rparr>)
                else os2)))"

text \<open>
  \<^verbatim>\<open>shmemq_new(name, max_count, element_size)\<close>: the handle or \<^verbatim>\<open>NULL\<close>, and the system
  afterwards. The results of \<^verbatim>\<open>malloc\<close> and \<^verbatim>\<open>strdup\<close> are not checked by the source and
  are taken to succeed. Line 50 opens with \<^verbatim>\<open>O_CREAT\<close> and without \<^verbatim>\<open>O_EXCL\<close>, so it also
  opens an object that another process has created since line 47, and line 54 sets
  \<open>created\<close> all the same.
\<close>

definition shmemq_new ::
  "platform \<Rightarrow> choices \<Rightarrow> os_state \<Rightarrow> string \<Rightarrow> ulong \<Rightarrow> uint \<Rightarrow> shmemq option \<times> os_state" where
  "shmemq_new P ch os nm count esize =
     (let os1 = malloc os;
          os2 = malloc os1;
          self = \<lparr>max_count = count, element_size = esize, max_size = count * ucast esize,
                   name = nm, shmem_fd = - 1,
                   mmap_size = count * ucast esize + sizeof_shmemq_info P - 1, mem = 0\<rparr>
      in case shm_open os2 nm False (open_denied ch) (next_fd ch) of
           (Inr fd, os3) \<Rightarrow> shmemq_new_map P ch os3 (self\<lparr>shmem_fd := fd\<rparr>) False
         | (Inl e, os3) \<Rightarrow>
             if e = ENOENT then
               (case shm_open (peer_step os3 nm (peer_creates ch)) nm True
                       (create_denied ch) (next_fd ch) of
                  (Inl e', os4) \<Rightarrow> shmemq_new_fail os4 self
                | (Inr fd, os4) \<Rightarrow> shmemq_new_map P ch os4 (self\<lparr>shmem_fd := fd\<rparr>) True)
             else shmemq_new_fail os3 self)"

text \<open>\<^verbatim>\<open>shmemq_destroy(self, unlink)\<close>.\<close>

definition shmemq_destroy :: "platform \<Rightarrow> os_state \<Rightarrow> shmemq \<Rightarrow> int \<Rightarrow> os_state" where
  "shmemq_destroy P os self unlink =
     (let os1 = munmap P os (mem self) (max_size self);
          os2 = close os1 (shmem_fd self);
          os3 = (if unlink \<noteq> 0 then shm_unlink os2 (name self) else os2);
          os4 = free os3;
          os5 = free os4
      in os5)"

subsection \<open>Created queues\<close>

text \<open>
  The segment that a creating \<^verbatim>\<open>shmemq_new\<close> leaves behind the handle \<open>h\<close>: the object has
  \<open>mmap_size\<close> bytes, zero-filled by \<^verbatim>\<open>ftruncate\<close>, both indices are set to 0 and the mutex
  is initialised process-shared.
\<close>

definition fresh :: "platform \<Rightarrow> shmemq \<Rightarrow> shmemq_info" where
  "fresh P h = \<lparr>lock = Unlocked Process_Shared, read_index = 0, write_index = 0,
                data = replicate (unat (mmap_size h) - offsetof_data P) 0\<rparr>"

text \<open>
  \<open>creates P ch os nm count esize h seg\<close>: in the system \<open>os\<close>, which has no object \<open>nm\<close>,
  and with no other process creating one meanwhile, \<^verbatim>\<open>shmemq_new(nm, count, esize)\<close>
  returns the handle \<open>h\<close> and leaves the segment \<open>seg\<close> under that name.
\<close>

definition creates ::
  "platform \<Rightarrow> choices \<Rightarrow> os_state \<Rightarrow> string \<Rightarrow> ulong \<Rightarrow> uint \<Rightarrow> shmemq \<Rightarrow> shmemq_info \<Rightarrow> bool" where
  "creates P ch os nm count esize h seg \<longleftrightarrow>
     objects os nm = None \<and> peer_creates ch = None \<and>
     fst (shmemq_new P ch os nm count esize) = Some h \<and>
     objects (snd (shmemq_new P ch os nm count esize)) nm = Some seg"

text \<open>
  The sizes for which line 44 computes the size of the mapping without overflow:
  \<open>max_count * element_size + sizeof(struct shmemq_info) - 1\<close> is below \<open>2 ^ 64\<close>, as a
  number.
\<close>

definition fits :: "platform \<Rightarrow> ulong \<Rightarrow> uint \<Rightarrow> bool" where
  "fits P count esize \<longleftrightarrow>
     unat count * unat esize + (offsetof_data P + 1 + tail_padding P) \<le> 2 ^ 64"

subsection \<open>Concrete queues and runs\<close>

text \<open>
  The scenario of the specification: the queue \<open>bench_q\<close> of capacity 4 with elements of 8
  bytes, the values \<open>v1\<close> to \<open>v5\<close>, and an output buffer of 8 bytes.
\<close>

definition bench_q :: shmemq where
  "bench_q = \<lparr>max_count = 4, element_size = 8, max_size = 32, name = ''bench_q'',
              shmem_fd = 3, mmap_size = 95, mem = 100\<rparr>"

definition v1 :: "byte list" where "v1 = [1, 1, 1, 1, 1, 1, 1, 1]"
definition v2 :: "byte list" where "v2 = [2, 2, 2, 2, 2, 2, 2, 2]"
definition v3 :: "byte list" where "v3 = [3, 3, 3, 3, 3, 3, 3, 3]"
definition v4 :: "byte list" where "v4 = [4, 4, 4, 4, 4, 4, 4, 4]"
definition v5 :: "byte list" where "v5 = [5, 5, 5, 5, 5, 5, 5, 5]"
definition buf :: "byte list" where "buf = [0, 0, 0, 0, 0, 0, 0, 0]"



text \<open>
  On Linux the object of \<open>bench_q\<close> has 95 bytes and \<^verbatim>\<open>data\<close> starts at byte 56: 32 bytes
  of ring and 7 bytes behind it.
\<close>

definition bench_full :: shmemq_info where
  "bench_full = \<lparr>lock = Unlocked Process_Shared, read_index = 0, write_index = 32,
                 data = v1 @ v2 @ v3 @ v4 @ replicate 7 0\<rparr>"




text \<open>
  Rounds of one enqueue and one dequeue, and what they return on a queue that takes the
  element and gives it back each time. \<open>idle d x\<close> is an empty segment with both indices at
  \<open>x\<close> and the bytes \<open>d\<close> in \<open>data\<close>.
\<close>

primrec rounds :: "shmemq \<Rightarrow> byte list \<Rightarrow> byte list \<Rightarrow> nat \<Rightarrow> call list" where
  "rounds h p b 0 = []"
| "rounds h p b (Suc k) =
     rounds h p b k @ [Enqueue p (element_size h), Dequeue b (element_size h)]"

primrec round_outcomes :: "byte list \<Rightarrow> nat \<Rightarrow> outcome list" where
  "round_outcomes p 0 = []"
| "round_outcomes p (Suc k) = round_outcomes p k @ [Enqueued True, Dequeued True p]"

definition idle :: "byte list \<Rightarrow> ulong \<Rightarrow> shmemq_info" where
  "idle d x = \<lparr>lock = Unlocked Process_Shared, read_index = x, write_index = x, data = d\<rparr>"

text \<open>
  A queue of one element of three bytes, and its segment once the write index has gone
  past \<open>2 ^ 64\<close>: \<open>3 * 6148914691236517205 = 2 ^ 64 - 1\<close>.
\<close>

definition tri_q :: shmemq where
  "tri_q = \<lparr>max_count = 1, element_size = 3, max_size = 3, name = ''tri_q'',
            shmem_fd = 3, mmap_size = 66, mem = 100\<rparr>"

definition tri :: "byte list" where
  "tri = [7, 7, 7]"

definition tri_buf :: "byte list" where
  "tri_buf = [0, 0, 0]"

definition tri_wrapped :: shmemq_info where
  "tri_wrapped = \<lparr>lock = Unlocked Process_Shared, read_index = 18446744073709551615,
                   write_index = 2, data = tri @ replicate 7 0\<rparr>"

text \<open>A queue of one element of one byte, and its segment after the same wrap.\<close>

definition unit_q :: shmemq where
  "unit_q = \<lparr>max_count = 1, element_size = 1, max_size = 1, name = ''unit_q'',
             shmem_fd = 3, mmap_size = 64, mem = 100\<rparr>"

definition unit_wrapped :: shmemq_info where
  "unit_wrapped = \<lparr>lock = Unlocked Process_Shared, read_index = 18446744073709551615,
                    write_index = 0, data = 7 # replicate 7 0\<rparr>"

text \<open>
  Linux on x86-64: \<^verbatim>\<open>pthread_mutex_t\<close> has 40 bytes, the two indices follow at 40 and 48
  and \<^verbatim>\<open>data\<close> at 56, with 7 bytes of padding behind it: \<^verbatim>\<open>struct shmemq_info\<close> has 64
  bytes. A page has 4096. \<open>boot\<close> is a system with no object, \<open>smooth\<close> a run in which no
  call fails and no other process steps in.
\<close>

definition linux :: platform where
  "linux = \<lparr>offsetof_data = 56, tail_padding = 7, page_size = 4096\<rparr>"

definition boot :: os_state where
  "boot = \<lparr>objects = Map.empty, descriptors = Map.empty, mapped = [], heap = 0\<rparr>"

definition smooth :: choices where
  "smooth = \<lparr>open_denied = False, create_denied = False, ftruncate_fails = False,
              mmap_fails = False, next_fd = 3, next_addr = 100, peer_creates = None\<rparr>"

text \<open>
  The system after \<open>bench_q\<close> was created in \<open>boot\<close>; a system in which another process has
  created \<open>bench_q\<close> and filled it; and that system after this process has attached.
\<close>

definition bench_os :: os_state where
  "bench_os = \<lparr>objects = [''bench_q'' \<mapsto> fresh linux bench_q],
                descriptors = [3 \<mapsto> ''bench_q''], mapped = [100], heap = 2\<rparr>"

definition peer_os :: os_state where
  "peer_os = \<lparr>objects = [''bench_q'' \<mapsto> bench_full], descriptors = Map.empty,
               mapped = [], heap = 0\<rparr>"

definition attached_os :: os_state where
  "attached_os = \<lparr>objects = [''bench_q'' \<mapsto> bench_full],
                   descriptors = [3 \<mapsto> ''bench_q''], mapped = [100], heap = 2\<rparr>"

text \<open>A queue whose payload fills one page exactly, and the system after its creation.\<close>

definition page_q :: shmemq where
  "page_q = \<lparr>max_count = 1, element_size = 4096, max_size = 4096, name = ''page_q'',
             shmem_fd = 3, mmap_size = 4159, mem = 100\<rparr>"

definition page_os :: os_state where
  "page_os = \<lparr>objects = [''page_q'' \<mapsto> fresh linux page_q],
               descriptors = [3 \<mapsto> ''page_q''], mapped = [100, 101], heap = 2\<rparr>"

text \<open>
  Queues whose sizes the C types do not hold. For \<open>skew_q\<close> the product of count and
  element size is \<open>2 * 2 ^ 64 + 4\<close>, so \<open>max_size\<close> is 4 with elements of 3 bytes; for
  \<open>over_q\<close> it is \<open>2 ^ 64 + 8\<close>, so \<open>max_size\<close> is 8, one element; for \<open>long_q\<close> it is
  \<open>2 ^ 80 + 1\<close>, so \<open>max_size\<close> is 1 with elements of 65537 bytes. \<open>zero_q\<close> has elements of
  no bytes. \<open>giant_q\<close> has one element of \<open>2 ^ 32 - 1\<close> bytes, a size that no \<^verbatim>\<open>int\<close> equals:
  as an \<^verbatim>\<open>int\<close>, these 32 bits are \<open>- 1\<close>.
\<close>

definition skew_q :: shmemq where
  "skew_q = \<lparr>max_count = 12297829382473034412, element_size = 3, max_size = 4,
             name = ''skew_q'', shmem_fd = 3, mmap_size = 67, mem = 100\<rparr>"

definition over_q :: shmemq where
  "over_q = \<lparr>max_count = 2305843009213693953, element_size = 8, max_size = 8,
             name = ''over_q'', shmem_fd = 3, mmap_size = 71, mem = 100\<rparr>"


definition zero_q :: shmemq where
  "zero_q = \<lparr>max_count = 4, element_size = 0, max_size = 0,
             name = ''zero_q'', shmem_fd = 3, mmap_size = 63, mem = 100\<rparr>"

definition giant_q :: shmemq where
  "giant_q = \<lparr>max_count = 1, element_size = 4294967295, max_size = 4294967295,
              name = ''giant_q'', shmem_fd = 3, mmap_size = 4294967358, mem = 100\<rparr>"

text \<open>
  Three elements of three bytes, and \<open>skew_q\<close> after the enqueue of the first, of the
  second, and at the end of the run enqueue, enqueue, dequeue, enqueue, dequeue.
\<close>

definition ea :: "byte list" where "ea = [10, 10, 10]"
definition eb :: "byte list" where "eb = [20, 20, 20]"

definition skew_one :: shmemq_info where
  "skew_one = \<lparr>lock = Unlocked Process_Shared, read_index = 0, write_index = 3,
                data = ea @ replicate 8 0\<rparr>"

definition skew_two :: shmemq_info where
  "skew_two = \<lparr>lock = Unlocked Process_Shared, read_index = 0, write_index = 6,
                data = ea @ eb @ replicate 5 0\<rparr>"


text \<open>\<open>over_q\<close> after one enqueue.\<close>

definition over_one :: shmemq_info where
  "over_one = \<lparr>lock = Unlocked Process_Shared, read_index = 0, write_index = 8,
                data = v1 @ replicate 7 0\<rparr>"

text \<open>
  \<open>bench_q\<close> while another process, which has filled it, is inside an operation and holds
  the mutex; and the same segment with indices and mutex initialised again.
\<close>

definition bench_busy :: shmemq_info where
  "bench_busy = \<lparr>lock = Locked Process_Shared, read_index = 0, write_index = 32,
                  data = v1 @ v2 @ v3 @ v4 @ replicate 7 0\<rparr>"

definition bench_reset :: shmemq_info where
  "bench_reset = \<lparr>lock = Unlocked Process_Shared, read_index = 0, write_index = 0,
                   data = v1 @ v2 @ v3 @ v4 @ replicate 7 0\<rparr>"

section \<open>Properties\<close>

subsection \<open>Words and casts\<close>

lemma unat_ucast_uint: "unat (ucast (e :: uint) :: ulong) = unat e"
  by (simp add: unsigned_ucast_eq take_bit_nat_eq_self_iff order_less_trans [OF unsigned_less])

lemma small_no_bit:
  assumes "unat (w :: 'a::len word) < 2 ^ n"
  shows "\<not> bit w n"
proof -
  have "take_bit n (unat w) = unat w"
    using assms by (simp only: take_bit_nat_eq_self_iff)
  then have "\<not> bit (unat w) n"
    by (metis bit_take_bit_iff less_irrefl)
  then show ?thesis
    by (simp add: bit_unsigned_iff)
qed

lemma no_msb:
  assumes "unat (e :: uint) < 2 ^ 31"
  shows "\<not> bit e 31"
  by (rule small_no_bit [OF assms])

lemma scast_ucast_uint:
  assumes "unat (e :: uint) < 2 ^ 31"
  shows "(scast e :: ulong) = ucast e"
  using no_msb [OF assms]
  by (intro bit_word_eqI) (auto simp add: bit_word_scast_iff bit_word_ucast_iff dest: bit_imp_le_length)

lemma unat_scast_len: "unat (e :: uint) < 2 ^ 31 \<Longrightarrow> unat (scast e :: ulong) = unat e"
  by (simp add: scast_ucast_uint unat_ucast_uint)

lemma no_top_bit_small:
  assumes "\<not> bit (w :: 'a::len word) (LENGTH('a) - 1)"
  shows "unat w < 2 ^ (LENGTH('a) - 1)"
proof -
  have "take_bit (LENGTH('a) - 1) (unat w) = unat w"
  proof (rule bit_eqI)
    fix n
    have "bit (unat w) n \<Longrightarrow> n < LENGTH('a) - 1"
    proof -
      assume b: "bit (unat w) n"
      then have "bit w n" by (simp add: bit_unsigned_iff)
      then have "n < LENGTH('a)" "n \<noteq> LENGTH('a) - 1"
        using assms by (auto dest: bit_imp_le_length)
      then show ?thesis by simp
    qed
    then show "bit (take_bit (LENGTH('a) - 1) (unat w)) n = bit (unat w) n"
      by (auto simp: bit_take_bit_iff)
  qed
  then show ?thesis by (simp only: take_bit_nat_eq_self_iff)
qed

lemma nonneg_off_t: "0 \<le> sint (w :: ulong) \<Longrightarrow> unat w < 2 ^ 63"
  using no_top_bit_small [of w] bit_last_iff [of w] by simp

lemma scast_huge:
  assumes "2 ^ 31 \<le> unat (e :: uint)"
  shows "2 ^ 63 \<le> unat (scast e :: ulong)"
proof -
  have "bit e 31" using no_top_bit_small [of e] assms by auto
  then have "bit (scast e :: ulong) 63" by (simp add: bit_word_scast_iff)
  then show ?thesis using small_no_bit [of "scast e :: ulong" 63] by (meson not_le)
qed

lemma sint_len:
  assumes "sint (len :: uint) = uint (e :: uint)"
  shows "len = e" and "unat e < 2 ^ 31"
proof -
  show "len = e" by (metis assms uint_sint uint_word_of_int_eq word_of_int_uint)
  have "sint len < 2 ^ 31" using sint_lt [of len] by simp
  then have "uint e < 2 ^ 31" using assms by simp
  then have "int (unat e) < 2 ^ 31" by (simp only: uint_nat)
  then show "unat e < 2 ^ 31" by (metis of_nat_less_iff of_nat_numeral of_nat_power)
qed

lemma sint_is_uint:
  assumes "unat (e :: uint) < 2 ^ 31"
  shows "sint e = uint e"
proof -
  have "int (unat e) < 2 ^ 31"
    using assms by (metis of_nat_less_iff of_nat_numeral of_nat_power)
  then have "uint e < 2 ^ 31" by (simp only: uint_nat)
  moreover have "- (2 ^ 31) \<le> uint e" by (rule order_trans [of _ 0]) simp_all
  ultimately have "signed_take_bit 31 (uint e) = uint e"
    by (rule signed_take_bit_int_eq_self [rotated])
  then show ?thesis by (simp add: sint_uint)
qed

lemma configured_max_size:
  "configured h \<Longrightarrow> unat (max_size h) = unat (max_count h) * unat (element_size h)"
  using unat_mult_lem [of "max_count h" "ucast (element_size h) :: ulong"]
  by (simp add: configured_def unat_ucast_uint)

lemma aligned_offset_fits:
  fixes E C x :: nat
  assumes "0 < E" "E dvd x" "0 < C"
  shows "x mod (C * E) + E \<le> C * E"
proof -
  define i where "i = x div E"
  have x: "x = i * E" using assms(2) by (simp add: i_def)
  have "x mod (C * E) = (i mod C) * E"
    by (simp add: x mult_mod_left)
  moreover have "i mod C < C" using assms(3) by simp
  then have "(i mod C) * E + E \<le> C * E"
    by (metis Suc_leI mult_Suc mult_le_mono1 add.commute)
  ultimately show ?thesis by simp
qed

subsection \<open>The two tests\<close>

lemma enqueue_full:
  assumes "lock m = Unlocked a" "unat (max_size h) \<le> used m"
  shows "shmemq_try_enqueue h m el (element_size h) = Inr (False, m)"
  using assms
  by (simp add: shmemq_try_enqueue_def pthread_mutex_lock_def pthread_mutex_unlock_def
      used_def word_le_nat_alt)

lemma dequeue_empty:
  assumes "lock m = Unlocked a" "unat (write_index m) \<le> unat (read_index m)"
  shows "shmemq_try_dequeue h m out (element_size h) = Inr (False, m, out)"
  using assms
  by (simp add: shmemq_try_dequeue_def pthread_mutex_lock_def pthread_mutex_unlock_def
      word_le_nat_alt)

subsection \<open>Splicing an element into the array\<close>

lemma splice_same:
  assumes "length p = n" "off + n \<le> length d"
  shows "take n (drop off (take off d @ p @ drop (off + n) d)) = p"
  using assms by simp

lemma splice_below:
  assumes "off + n \<le> length d" "x + n \<le> off"
  shows "take n (drop x (take off d @ rest)) = take n (drop x d)"
proof -
  have "n \<le> off - x" "n \<le> length d - x" using assms by arith+
  then show ?thesis
    using assms by (simp add: drop_take min_def)
qed

lemma splice_above:
  assumes "length p = n" "off + n \<le> length d" "off + n \<le> x"
  shows "take n (drop x (take off d @ p @ drop (off + n) d)) = take n (drop x d)"
proof -
  have "drop x (take off d @ p @ drop (off + n) d) = drop (x - (off + n)) (drop (off + n) d)"
    using assms by simp
  also have "\<dots> = drop x d"
    using assms by simp
  finally show ?thesis by simp
qed

lemma splice_other:
  assumes "length p = n" "off + n \<le> length d" "x + n \<le> off \<or> off + n \<le> x"
  shows "take n (drop x (take off d @ p @ drop (off + n) d)) = take n (drop x d)"
  using assms splice_below [of off n d x] splice_above [of p n off d x] by blast

lemma slots_distinct:
  fixes i k n C :: nat
  assumes "k < n" "n < C"
  shows "(i + k) mod C \<noteq> (i + n) mod C"
proof
  assume "(i + k) mod C = (i + n) mod C"
  then have "C dvd (i + n) - (i + k)"
    using assms by (metis mod_eq_dvd_iff_nat add_le_cancel_left less_imp_le)
  then have "C dvd n - k" by simp
  moreover have "0 < n - k" "n - k < C" using assms by arith+
  ultimately show False
    using nat_dvd_not_less by blast
qed

lemma slots_disjoint:
  fixes a b E :: nat
  assumes "a \<noteq> b"
  shows "a * E + E \<le> b * E \<or> b * E + E \<le> a * E"
proof (cases "a < b")
  case True
  then have "Suc a * E \<le> b * E" by (intro mult_le_mono1) simp
  then show ?thesis by simp
next
  case False
  with assms have "Suc b * E \<le> a * E" by (intro mult_le_mono1) simp
  then show ?thesis by simp
qed

subsection \<open>What the two operations do on a segment that satisfies the invariant\<close>

lemma dvd_gap:
  fixes E u M :: nat
  assumes "E dvd u" "E dvd M" "u < M"
  shows "u + E \<le> M"
proof -
  obtain a where a: "u = E * a" using assms(1) by (auto simp: dvd_def)
  obtain c where c: "M = E * c" using assms(2) by (auto simp: dvd_def)
  have "a < c" using assms(3) a c by (metis mult_less_cancel1)
  then have "E * Suc a \<le> E * c" by (intro mult_le_mono2) simp
  then show ?thesis using a c by simp
qed

lemma write_offset_fits:
  assumes "configured h" "ring_inv h m" "used m < unat (max_size h)"
  shows "unat (write_index m) mod unat (max_size h) + unat (element_size h) \<le> unat (max_size h)"
proof -
  let ?E = "unat (element_size h)" and ?M = "unat (max_size h)"
  let ?r = "unat (read_index m)" and ?w = "unat (write_index m)"
  have M: "?M = unat (max_count h) * ?E" by (rule configured_max_size [OF assms(1)])
  have E: "0 < ?E" using assms(3) M by (cases "?E") auto
  have C: "0 < unat (max_count h)" using assms(3) M by (cases "unat (max_count h)") auto
  have dr: "?E dvd ?r" and du: "?E dvd used m" using assms(2) by (simp_all add: ring_inv_def)
  have gap: "used m + ?E \<le> ?M" using dvd_gap [OF du _ assms(3)] M by simp
  show ?thesis
  proof (cases "?r \<le> ?w")
    case True
    then have "?w = ?r + used m" by (simp add: used_def unat_sub_if')
    then have "?E dvd ?w" using dr du by simp
    then show ?thesis using aligned_offset_fits [OF E _ C] M by simp
  next
    case False
    then have "used m = ?w + 2 ^ 64 - ?r" by (simp add: used_def unat_sub_if')
    moreover have "?r < 2 ^ 64" using unsigned_less [of "read_index m"] by simp
    ultimately have "?w < used m" by arith
    then have "?w + ?E < ?M" using gap by arith
    then show ?thesis by simp
  qed
qed

lemma enqueue_char:
  assumes "configured h" "ring_inv h m"
  shows "shmemq_try_enqueue h m el len =
     (if len \<noteq> element_size h \<or> used m = unat (max_size h) then Inr (False, m)
      else if length el < unat (element_size h) then Inl OutOfBounds
      else Inr (True, store h m el))"
proof -
  have lk: "lock m = Unlocked Process_Shared" and ln: "unat (max_size h) \<le> length (data m)"
    and le: "used m \<le> unat (max_size h)"
    using assms(2) by (simp_all add: ring_inv_def)
  have len: "unat (scast (element_size h) :: ulong) = unat (element_size h)"
    using assms(1) by (simp add: configured_def unat_scast_len)
  show ?thesis
  proof (cases "len \<noteq> element_size h")
    case True
    then show ?thesis by (simp add: shmemq_try_enqueue_def)
  next
    case eq: False
    show ?thesis
    proof (cases "used m = unat (max_size h)")
      case True
      then show ?thesis using enqueue_full [OF lk, of h el] eq by simp
    next
      case False
      then have room: "used m < unat (max_size h)" using le by simp
      then have nz: "max_size h \<noteq> 0" by (auto simp: unat_eq_zero)
      have notfull: "\<not> max_size h \<le> write_index m - read_index m"
        using room by (simp add: used_def word_le_nat_alt)
      have m_eq: "m\<lparr>lock := Unlocked Process_Shared, data := d, write_index := x\<rparr>
           = m\<lparr>data := d, write_index := x\<rparr>" for d x
        using lk by simp
      have "unat (write_index m) mod unat (max_size h) + unat (element_size h) \<le> length (data m)"
        using write_offset_fits [OF assms room] ln by simp
      then show ?thesis
        using eq False lk nz notfull
        by (simp add: shmemq_try_enqueue_def pthread_mutex_lock_def pthread_mutex_unlock_def
            memcpy_def len unat_mod store_def m_eq)
    qed
  qed
qed

lemma read_offset_fits:
  assumes "configured h" "ring_inv h m" "unat (read_index m) < unat (write_index m)"
  shows "unat (read_index m) mod unat (max_size h) + unat (element_size h) \<le> unat (max_size h)"
    and "max_size h \<noteq> 0"
    and "unat (element_size h) \<le> used m"
    and "used m = unat (write_index m) - unat (read_index m)"
proof -
  let ?E = "unat (element_size h)" and ?M = "unat (max_size h)"
  let ?r = "unat (read_index m)" and ?w = "unat (write_index m)"
  have M: "?M = unat (max_count h) * ?E" by (rule configured_max_size [OF assms(1)])
  have dr: "?E dvd ?r" and du: "?E dvd used m" and le: "used m \<le> ?M"
    using assms(2) by (simp_all add: ring_inv_def)
  show u: "used m = ?w - ?r" using assms(3) by (simp add: used_def unat_sub_if')
  then have pos: "0 < used m" using assms(3) by simp
  then show Eu: "?E \<le> used m" using du by (auto dest: dvd_imp_le)
  have E: "0 < ?E" using pos du by (cases "?E") auto
  have "0 < ?M" using pos le by arith
  then show "max_size h \<noteq> 0" by (auto simp: unat_eq_zero)
  have C: "0 < unat (max_count h)" using \<open>0 < ?M\<close> M by (cases "unat (max_count h)") auto
  show "?r mod ?M + ?E \<le> ?M" using aligned_offset_fits [OF E dr C] M by simp
qed

lemma dequeue_char:
  assumes "configured h" "ring_inv h m"
  shows "shmemq_try_dequeue h m out len =
     (if len \<noteq> element_size h \<or> unat (write_index m) \<le> unat (read_index m)
        then Inr (False, m, out)
      else if length out < unat (element_size h) then Inl OutOfBounds
      else Inr (True, advance h m, front h m @ drop (unat (element_size h)) out))"
proof -
  have lk: "lock m = Unlocked Process_Shared" and ln: "unat (max_size h) \<le> length (data m)"
    using assms(2) by (simp_all add: ring_inv_def)
  have len: "unat (scast (element_size h) :: ulong) = unat (element_size h)"
    using assms(1) by (simp add: configured_def unat_scast_len)
  show ?thesis
  proof (cases "len \<noteq> element_size h")
    case True
    then show ?thesis by (simp add: shmemq_try_dequeue_def)
  next
    case eq: False
    show ?thesis
    proof (cases "unat (write_index m) \<le> unat (read_index m)")
      case True
      then show ?thesis using dequeue_empty [OF lk, of h out] eq by simp
    next
      case False
      then have av: "unat (read_index m) < unat (write_index m)" by simp
      have notempty: "\<not> write_index m \<le> read_index m"
        using av by (simp add: word_le_nat_alt)
      have m_eq: "m\<lparr>lock := Unlocked Process_Shared, read_index := x\<rparr> = m\<lparr>read_index := x\<rparr>" for x
        using lk by simp
      have "unat (read_index m) mod unat (max_size h) + unat (element_size h) \<le> length (data m)"
        using read_offset_fits(1) [OF assms av] ln by simp
      then show ?thesis
        using eq False lk notempty read_offset_fits(2) [OF assms av]
        by (simp add: shmemq_try_dequeue_def pthread_mutex_lock_def pthread_mutex_unlock_def
            memcpy_def len unat_mod advance_def front_def m_eq)
    qed
  qed
qed

subsection \<open>The invariant is kept\<close>

lemma configured_dvd: "configured h \<Longrightarrow> unat (element_size h) dvd unat (max_size h)"
  by (simp add: configured_max_size)

lemma used_gap:
  assumes "configured h" "ring_inv h m" "used m < unat (max_size h)"
  shows "used m + unat (element_size h) \<le> unat (max_size h)"
proof -
  have du: "unat (element_size h) dvd used m" using assms(2) by (simp add: ring_inv_def)
  show ?thesis using dvd_gap [OF du configured_dvd [OF assms(1)] assms(3)] .
qed

lemma used_store:
  assumes "configured h" "ring_inv h m" "used m < unat (max_size h)"
  shows "used (store h m el) = used m + unat (element_size h)"
proof -
  have "write_index (store h m el) - read_index (store h m el)
      = (write_index m - read_index m) + ucast (element_size h)" by (simp add: store_def)
  then have "used (store h m el) = unat ((write_index m - read_index m) + ucast (element_size h))"
    by (simp only: used_def)
  then have "used (store h m el) = (used m + unat (element_size h)) mod 2 ^ 64"
    by (simp add: used_def unat_word_ariths unat_ucast_uint)
  moreover have "unat (max_size h) < 2 ^ 64" using unsigned_less [of "max_size h"] by simp
  ultimately show ?thesis using used_gap [OF assms] by simp
qed

lemma ring_inv_store:
  assumes "configured h" "ring_inv h m" "used m < unat (max_size h)"
    and "unat (element_size h) \<le> length el"
  shows "ring_inv h (store h m el)"
proof -
  have ln: "unat (max_size h) \<le> length (data m)" using assms(2) by (simp add: ring_inv_def)
  have fit: "unat (write_index m) mod unat (max_size h) + unat (element_size h) \<le> unat (max_size h)"
    by (rule write_offset_fits [OF assms(1-3)])
  have "length (data (store h m el)) = length (data m)"
    using fit ln assms(4) by (simp add: store_def)
  moreover have "lock (store h m el) = lock m" "read_index (store h m el) = read_index m"
    by (simp_all add: store_def)
  ultimately show ?thesis
    using assms(2) used_store [OF assms(1-3), of el] used_gap [OF assms(1-3)]
    by (simp add: ring_inv_def)
qed

lemma unat_read_advance:
  assumes "configured h" "ring_inv h m" "unat (read_index m) < unat (write_index m)"
  shows "unat (read_index (advance h m)) = unat (read_index m) + unat (element_size h)"
proof -
  have "unat (read_index m) + unat (element_size h) \<le> unat (write_index m)"
    using read_offset_fits(3,4) [OF assms] assms(3) by arith
  moreover have "unat (write_index m) < 2 ^ 64" using unsigned_less [of "write_index m"] by simp
  ultimately show ?thesis
    by (simp add: advance_def unat_word_ariths unat_ucast_uint)
qed

lemma used_advance:
  assumes "configured h" "ring_inv h m" "unat (read_index m) < unat (write_index m)"
  shows "used (advance h m) = used m - unat (element_size h)"
proof -
  have le: "unat (read_index m) + unat (element_size h) \<le> unat (write_index m)"
    using read_offset_fits(3,4) [OF assms] assms(3) by arith
  have "used (advance h m) = unat (write_index m) - unat (read_index (advance h m))"
    using le unat_read_advance [OF assms]
    by (simp add: used_def unat_sub_if' advance_def)
  then show ?thesis
    using unat_read_advance [OF assms] read_offset_fits(4) [OF assms] by simp
qed

lemma ring_inv_advance:
  assumes "configured h" "ring_inv h m" "unat (read_index m) < unat (write_index m)"
  shows "ring_inv h (advance h m)"
proof -
  have "lock (advance h m) = lock m" "data (advance h m) = data m"
    by (simp_all add: advance_def)
  moreover have "unat (element_size h) dvd used m - unat (element_size h)"
    using assms(2) by (simp add: ring_inv_def)
  moreover have "used m - unat (element_size h) \<le> unat (max_size h)"
    using assms(2) by (auto simp add: ring_inv_def)
  ultimately show ?thesis
    using assms(2) used_advance [OF assms] unat_read_advance [OF assms]
    by (simp add: ring_inv_def)
qed

lemma ring_inv_fresh:
  "unat (max_size h) + offsetof_data P \<le> unat (mmap_size h) \<Longrightarrow> ring_inv h (fresh P h)"
  by (simp add: ring_inv_def fresh_def used_def)

lemma ring_inv_enqueue:
  assumes "configured h" "ring_inv h m" "shmemq_try_enqueue h m el len = Inr (b, m')"
  shows "ring_inv h m'"
proof -
  have le: "used m \<le> unat (max_size h)" using assms(2) by (simp add: ring_inv_def)
  show ?thesis
    using assms(3) assms(2) ring_inv_store [OF assms(1,2), of el] le
    by (auto simp: enqueue_char [OF assms(1,2)] split: if_splits)
qed

lemma ring_inv_dequeue:
  assumes "configured h" "ring_inv h m" "shmemq_try_dequeue h m out len = Inr (b, m', e)"
  shows "ring_inv h m'"
  using assms(3) assms(2) ring_inv_advance [OF assms(1,2)]
  by (auto simp: dequeue_char [OF assms(1,2)] split: if_splits)

subsection \<open>The queue that the segment holds\<close>

lemma slot_offset:
  fixes E C i k :: nat
  shows "(i * E + k * E) mod (C * E) = ((i + k) mod C) * E"
  by (simp add: mult_mod_left flip: add_mult_distrib)

lemma front_slot: "front h m = slot h m 0"
  by (simp add: front_def slot_def)

lemma slot_store_old:
  assumes "configured h" "ring_inv h m" "unwrapped m" "used m < unat (max_size h)"
    and "unat (element_size h) \<le> length el" "k < used m div unat (element_size h)"
  shows "slot h (store h m el) k = slot h m k"
proof -
  let ?E = "unat (element_size h)" and ?M = "unat (max_size h)" and ?C = "unat (max_count h)"
  let ?r = "unat (read_index m)" and ?w = "unat (write_index m)"
  have M: "?M = ?C * ?E" by (rule configured_max_size [OF assms(1)])
  have E: "0 < ?E" using assms(4) M by (cases "?E") auto
  have dr: "?E dvd ?r" and du: "?E dvd used m" and ln: "?M \<le> length (data m)"
    using assms(2) by (simp_all add: ring_inv_def)
  define i where "i = ?r div ?E"
  define n where "n = used m div ?E"
  have r: "?r = i * ?E" using dr by (simp add: i_def)
  have u: "used m = n * ?E" using du by (simp add: n_def)
  have w: "?w = i * ?E + n * ?E"
    using assms(3) r u by (simp add: unwrapped_def used_def unat_sub_if')
  have nC: "n < ?C" using assms(4) u M E by simp
  have kn: "k < n" using assms(6) by (simp add: n_def)
  have woff: "?w mod ?M = ((i + n) mod ?C) * ?E" by (simp only: w M slot_offset)
  have koff: "(?r + k * ?E) mod ?M = ((i + k) mod ?C) * ?E" by (simp only: r M slot_offset)
  have fit: "?w mod ?M + ?E \<le> length (data m)"
    using write_offset_fits [OF assms(1,2,4)] ln by simp
  have dis: "(?r + k * ?E) mod ?M + ?E \<le> ?w mod ?M \<or> ?w mod ?M + ?E \<le> (?r + k * ?E) mod ?M"
    unfolding woff koff by (rule slots_disjoint [OF slots_distinct [OF kn nC]])
  have "length (take ?E el) = ?E" using assms(5) by simp
  from splice_other [OF this fit dis] show ?thesis
    by (simp add: slot_def store_def)
qed

lemma slot_store_new:
  assumes "configured h" "ring_inv h m" "unwrapped m" "used m < unat (max_size h)"
    and "unat (element_size h) \<le> length el"
  shows "slot h (store h m el) (used m div unat (element_size h)) = take (unat (element_size h)) el"
proof -
  let ?E = "unat (element_size h)" and ?M = "unat (max_size h)"
  let ?r = "unat (read_index m)" and ?w = "unat (write_index m)"
  have du: "?E dvd used m" and ln: "?M \<le> length (data m)"
    using assms(2) by (simp_all add: ring_inv_def)
  have w: "?r + used m div ?E * ?E = ?w"
    using assms(3) du by (simp add: unwrapped_def used_def unat_sub_if')
  have fit: "?w mod ?M + ?E \<le> length (data m)"
    using write_offset_fits [OF assms(1,2,4)] ln by simp
  have "length (take ?E el) = ?E" using assms(5) by simp
  from splice_same [OF this fit] show ?thesis
    by (simp add: slot_def store_def w)
qed

lemma pending_store:
  assumes "configured h" "ring_inv h m" "unwrapped m" "used m < unat (max_size h)"
    and "unat (element_size h) \<le> length el"
  shows "pending h (store h m el) = pending h m @ [take (unat (element_size h)) el]"
proof -
  let ?E = "unat (element_size h)"
  have E: "0 < ?E" using assms(4) configured_max_size [OF assms(1)] by (cases "?E") auto
  have du: "?E dvd used m" using assms(2) by (simp add: ring_inv_def)
  have n: "used (store h m el) div ?E = Suc (used m div ?E)"
    using used_store [OF assms(1,2,4), of el] E by (simp add: div_add_self2)
  have "map (slot h (store h m el)) [0..<used m div ?E] = map (slot h m) [0..<used m div ?E]"
    using slot_store_old [OF assms] by simp
  then show ?thesis
    using slot_store_new [OF assms] by (simp add: pending_def n)
qed

lemma pending_advance:
  assumes "configured h" "ring_inv h m" "unat (read_index m) < unat (write_index m)"
  shows "pending h m = front h m # pending h (advance h m)"
proof -
  let ?E = "unat (element_size h)"
  have du: "?E dvd used m" using assms(2) by (simp add: ring_inv_def)
  have Eu: "?E \<le> used m" by (rule read_offset_fits(3) [OF assms])
  have "0 < used m" using read_offset_fits(4) [OF assms] assms(3) by simp
  have E: "0 < ?E" using \<open>0 < used m\<close> du by (cases "?E") auto
  from Eu have pos: "0 < used m div ?E" using E by (simp add: div_greater_zero_iff)
  have n: "used (advance h m) div ?E = used m div ?E - 1"
    using used_advance [OF assms] le_div_geq [OF E Eu] by simp
  have sl: "slot h (advance h m) k = slot h m (Suc k)" for k
  proof -
    have "data (advance h m) = data m" by (simp add: advance_def)
    moreover have "unat (read_index (advance h m)) + k * ?E = unat (read_index m) + Suc k * ?E"
      using unat_read_advance [OF assms] by simp
    ultimately show ?thesis by (simp only: slot_def)
  qed
  have "[0..<used m div ?E] = 0 # map Suc [0..<used m div ?E - 1]"
    using pos by (metis Suc_pred' map_Suc_upt upt_conv_Cons)
  then have "pending h m = slot h m 0 # map (slot h m \<circ> Suc) [0..<used m div ?E - 1]"
    by (simp add: pending_def)
  then show ?thesis
    by (simp add: front_slot pending_def n sl comp_def)
qed

subsection \<open>Runs\<close>

lemma wrapped_store:
  assumes "configured h" "ring_inv h m" "\<not> unwrapped m" "used m < unat (max_size h)"
  shows "\<not> unwrapped (store h m el)"
proof -
  let ?E = "unat (element_size h)" and ?M = "unat (max_size h)"
  let ?r = "unat (read_index m)" and ?w = "unat (write_index m)"
  have wr: "?w < ?r" using assms(3) by (simp add: unwrapped_def)
  then have u: "used m = ?w + 2 ^ 64 - ?r" by (simp add: used_def unat_sub_if')
  have M: "?M < 2 ^ 64" using unsigned_less [of "max_size h"] by simp
  have r: "?r < 2 ^ 64" using unsigned_less [of "read_index m"] by simp
  have "?w + ?E < ?r" using used_gap [OF assms(1,2,4)] u M r wr by arith
  moreover from this r have "unat (write_index m + ucast (element_size h)) = ?w + ?E"
    by (simp add: unat_word_ariths unat_ucast_uint)
  ultimately show ?thesis by (simp add: unwrapped_def store_def)
qed

lemma unwrapped_advance:
  assumes "configured h" "ring_inv h m" "unat (read_index m) < unat (write_index m)"
  shows "unwrapped (advance h m)"
proof -
  have "unat (read_index m) + unat (element_size h) \<le> unat (write_index m)"
    using read_offset_fits(3,4) [OF assms] assms(3) by arith
  moreover have "write_index (advance h m) = write_index m" by (simp add: advance_def)
  ultimately show ?thesis
    using unat_read_advance [OF assms] by (simp add: unwrapped_def)
qed

lemma length_front:
  assumes "configured h" "ring_inv h m" "unat (read_index m) < unat (write_index m)"
  shows "length (front h m) = unat (element_size h)"
proof -
  have "unat (read_index m) mod unat (max_size h) + unat (element_size h) \<le> length (data m)"
    using read_offset_fits(1) [OF assms] assms(2) by (simp add: ring_inv_def)
  then show ?thesis by (simp add: front_def)
qed

lemma fifo_general:
  assumes "configured h"
  shows "ring_inv h m \<Longrightarrow> run_calls h m cs = Inr (os, m') \<Longrightarrow>
     ring_inv h m' \<and> fifo_rel h m m' (accepted h cs os) (delivered h os)"
proof (induction cs arbitrary: m os)
  case Nil
  then show ?case by (auto simp: fifo_rel_def)
next
  case (Cons c cs)
  note inv = \<open>ring_inv h m\<close>
  have le: "used m \<le> unat (max_size h)" using inv by (simp add: ring_inv_def)
  show ?case
  proof (cases c)
    case (Enqueue el len)
    from Cons.prems(2) obtain b m1 os1 where
      step: "shmemq_try_enqueue h m el len = Inr (b, m1)"
      and rest: "run_calls h m1 cs = Inr (os1, m')" and os: "os = Enqueued b # os1"
      by (auto simp: Enqueue split: sum.splits prod.splits)
    have inv1: "ring_inv h m1" by (rule ring_inv_enqueue [OF assms inv step])
    from Cons.IH [OF inv1 rest]
    have inv': "ring_inv h m'" and ih: "fifo_rel h m1 m' (accepted h cs os1) (delivered h os1)"
      by simp_all
    show ?thesis
    proof (cases b)
      case False
      then have "m1 = m" using step by (auto simp: enqueue_char [OF assms inv] split: if_splits)
      then show ?thesis using inv' ih False by (simp add: Enqueue os)
    next
      case True
      then have m1: "m1 = store h m el" and el: "unat (element_size h) \<le> length el"
        and room: "used m < unat (max_size h)"
        using step le by (auto simp: enqueue_char [OF assms inv] split: if_splits)
      show ?thesis
      proof (cases "unwrapped m")
        case lin: True
        have pend: "pending h m1 = pending h m @ [take (unat (element_size h)) el]"
          unfolding m1 by (rule pending_store [OF assms inv lin room el])
        show ?thesis
          using inv' ih lin True pend
          by (auto simp: Enqueue os fifo_rel_def split: if_splits)
      next
        case wr: False
        then have "\<not> unwrapped m1" unfolding m1 by (rule wrapped_store [OF assms inv _ room])
        then show ?thesis
          using inv' ih wr True by (auto simp: Enqueue os fifo_rel_def)
      qed
    qed
  next
    case (Dequeue out len)
    from Cons.prems(2) obtain b m1 e os1 where
      step: "shmemq_try_dequeue h m out len = Inr (b, m1, e)"
      and rest: "run_calls h m1 cs = Inr (os1, m')" and os: "os = Dequeued b e # os1"
      by (auto simp: Dequeue split: sum.splits prod.splits)
    have inv1: "ring_inv h m1" by (rule ring_inv_dequeue [OF assms inv step])
    from Cons.IH [OF inv1 rest]
    have inv': "ring_inv h m'" and ih: "fifo_rel h m1 m' (accepted h cs os1) (delivered h os1)"
      by simp_all
    show ?thesis
    proof (cases b)
      case False
      then have "m1 = m" using step by (auto simp: dequeue_char [OF assms inv] split: if_splits)
      then show ?thesis using inv' ih False by (simp add: Dequeue os)
    next
      case True
      then have m1: "m1 = advance h m" and av: "unat (read_index m) < unat (write_index m)"
        and e: "e = front h m @ drop (unat (element_size h)) out"
        using step by (auto simp: dequeue_char [OF assms inv] split: if_splits)
      have lin: "unwrapped m" using av by (simp add: unwrapped_def)
      have lin1: "unwrapped m1" unfolding m1 by (rule unwrapped_advance [OF assms inv av])
      have pend: "pending h m = front h m # pending h m1"
        unfolding m1 by (rule pending_advance [OF assms inv av])
      have te: "take (unat (element_size h)) e = front h m"
        using length_front [OF assms inv av] by (simp add: e)
      show ?thesis
        using inv' ih lin lin1 True pend te
        by (auto simp: Dequeue os fifo_rel_def)
    qed
  qed
qed



lemma lock_update_same: "lock m = l \<Longrightarrow> m\<lparr>lock := l\<rparr> = m"
  by auto

lemma run_calls_append:
  "run_calls h m (cs @ ds) =
     (case run_calls h m cs of
        Inl f \<Rightarrow> Inl f
      | Inr (os, m') \<Rightarrow>
          (case run_calls h m' ds of
             Inl f \<Rightarrow> Inl f
           | Inr (os', m'') \<Rightarrow> Inr (os @ os', m'')))"
proof (induction cs arbitrary: m)
  case Nil
  show ?case by (simp split: sum.splits)
next
  case (Cons c cs)
  show ?case
    by (cases c) (simp_all add: Cons.IH split: sum.splits prod.splits)
qed

lemma reach_inv:
  assumes "configured h" "ring_inv h seg" "run_calls h seg cs = Inr (os, m)"
  shows "ring_inv h m"
  using fifo_general [OF assms] by simp

lemma enqueue_false_same:
  "shmemq_try_enqueue h m el len = Inr (False, m') \<Longrightarrow> m' = m"
  by (auto simp: shmemq_try_enqueue_def pthread_mutex_lock_def
      pthread_mutex_unlock_def lock_update_same split: if_splits sum.splits mutex.splits)

lemma dequeue_false_same:
  "shmemq_try_dequeue h m out len = Inr (False, m', e) \<Longrightarrow> m' = m \<and> e = out"
  by (auto simp: shmemq_try_dequeue_def pthread_mutex_lock_def
      pthread_mutex_unlock_def lock_update_same split: if_splits sum.splits mutex.splits)

lemma fill:
  assumes "configured h" and E: "0 < unat (element_size h)"
  shows "ring_inv h m \<Longrightarrow> used m + length ps * unat (element_size h) \<le> unat (max_size h) \<Longrightarrow>
     \<forall>p \<in> set ps. unat (element_size h) \<le> length p \<Longrightarrow>
     \<exists>m'. run_calls h m (map (\<lambda>p. Enqueue p (element_size h)) ps)
             = Inr (replicate (length ps) (Enqueued True), m') \<and>
          ring_inv h m' \<and> used m' = used m + length ps * unat (element_size h) \<and>
          read_index m' = read_index m"
proof (induction ps arbitrary: m)
  case Nil
  then show ?case by simp
next
  case (Cons p ps)
  have room: "used m < unat (max_size h)" using Cons.prems(2) E by simp
  have p: "unat (element_size h) \<le> length p" using Cons.prems(3) by simp
  have step: "shmemq_try_enqueue h m p (element_size h) = Inr (True, store h m p)"
    using room p by (simp add: enqueue_char [OF assms(1) Cons.prems(1)])
  have inv1: "ring_inv h (store h m p)" by (rule ring_inv_store [OF assms(1) Cons.prems(1) room p])
  have u1: "used (store h m p) = used m + unat (element_size h)"
    by (rule used_store [OF assms(1) Cons.prems(1) room])
  have "used (store h m p) + length ps * unat (element_size h) \<le> unat (max_size h)"
    using Cons.prems(2) u1 by simp
  from Cons.IH [OF inv1 this] Cons.prems(3)
  obtain m' where "run_calls h (store h m p) (map (\<lambda>p. Enqueue p (element_size h)) ps)
             = Inr (replicate (length ps) (Enqueued True), m')"
     and "ring_inv h m'" and "used m' = used (store h m p) + length ps * unat (element_size h)"
     and "read_index m' = read_index (store h m p)"
    by auto
  then show ?case
    using step u1 by (auto simp: store_def)
qed

lemma stuck_until_dequeue:
  assumes "configured h" "ring_inv h m" "used m = unat (max_size h)"
  shows "run_calls h m cs = Inr (os, m') \<Longrightarrow> \<forall>e. Dequeued True e \<notin> set os \<Longrightarrow>
     m' = m \<and> Enqueued True \<notin> set os"
proof (induction cs arbitrary: os)
  case Nil
  then show ?case by simp
next
  case (Cons c cs)
  show ?case
  proof (cases c)
    case (Enqueue el len)
    have "shmemq_try_enqueue h m el len = Inr (False, m)"
      using assms(3) by (simp add: enqueue_char [OF assms(1,2)])
    with Cons.prems obtain os1 where "run_calls h m cs = Inr (os1, m')" "os = Enqueued False # os1"
      by (auto simp: Enqueue split: sum.splits prod.splits)
    with Cons.IH [of os1] Cons.prems(2) show ?thesis by auto
  next
    case (Dequeue out len)
    from Cons.prems(1) obtain b m1 e os1 where
      step: "shmemq_try_dequeue h m out len = Inr (b, m1, e)"
      and rest: "run_calls h m1 cs = Inr (os1, m')" and os: "os = Dequeued b e # os1"
      by (auto simp: Dequeue split: sum.splits prod.splits)
    have "\<not> b" using Cons.prems(2) os by auto
    with step have "m1 = m" using dequeue_false_same [of h m out len m1 e] by simp
    with Cons.IH [of os1] rest Cons.prems(2) os \<open>\<not> b\<close> show ?thesis by auto
  qed
qed








subsection \<open>Element sizes that no \<^verbatim>\<open>int\<close> length equals\<close>

text \<open>
  When the element size is \<open>2 ^ 31\<close> or more, a declared length with the same 32 bits is
  negative, and \<^verbatim>\<open>memcpy\<close> receives it sign-extended: at least \<open>2 ^ 63\<close> bytes. On a segment
  with fewer bytes no call succeeds.
\<close>

lemma huge_enqueue:
  assumes "2 ^ 31 \<le> unat (element_size h)" and "length (data m) < 2 ^ 63"
    and "shmemq_try_enqueue h m el len = Inr (b, m')"
  shows "\<not> b" and "m' = m"
proof -
  have "length (data m) < unat (scast (element_size h) :: ulong)"
    using scast_huge [OF assms(1)] assms(2) by simp
  then show "\<not> b"
    using assms(3)
    by (auto simp: shmemq_try_enqueue_def memcpy_def split: if_splits sum.splits)
  with assms(3) show "m' = m" using enqueue_false_same [of h m el len m'] by simp
qed

lemma huge_dequeue:
  assumes "2 ^ 31 \<le> unat (element_size h)" and "length (data m) < 2 ^ 63"
    and "shmemq_try_dequeue h m out len = Inr (b, m', e)"
  shows "\<not> b" and "m' = m" and "e = out"
proof -
  have "length (data m) < unat (scast (element_size h) :: ulong)"
    using scast_huge [OF assms(1)] assms(2) by simp
  then show "\<not> b"
    using assms(3)
    by (auto simp: shmemq_try_dequeue_def memcpy_def split: if_splits sum.splits)
  with assms(3) show "m' = m" "e = out" using dequeue_false_same [of h m out len m' e] by simp_all
qed

lemma quiet_run:
  assumes "2 ^ 31 \<le> unat (element_size h)" and "length (data m) < 2 ^ 63"
  shows "run_calls h m cs = Inr (rs, m') \<Longrightarrow>
     m' = m \<and> delivered h rs = [] \<and> accepted h cs rs = [] \<and> Enqueued True \<notin> set rs"
proof (induction cs arbitrary: rs)
  case Nil
  then show ?case by simp
next
  case (Cons c cs)
  show ?case
  proof (cases c)
    case (Enqueue el len)
    from Cons.prems obtain b m1 rs1 where
      step: "shmemq_try_enqueue h m el len = Inr (b, m1)"
      and rest: "run_calls h m1 cs = Inr (rs1, m')" and rs: "rs = Enqueued b # rs1"
      by (auto simp: Enqueue split: sum.splits prod.splits)
    have "\<not> b" "m1 = m" using huge_enqueue [OF assms step] by simp_all
    with Cons.IH [of rs1] rest show ?thesis by (simp add: Enqueue rs)
  next
    case (Dequeue out len)
    from Cons.prems obtain b m1 e rs1 where
      step: "shmemq_try_dequeue h m out len = Inr (b, m1, e)"
      and rest: "run_calls h m1 cs = Inr (rs1, m')" and rs: "rs = Dequeued b e # rs1"
      by (auto simp: Dequeue split: sum.splits prod.splits)
    have "\<not> b" "m1 = m" using huge_dequeue [OF assms step] by simp_all
    with Cons.IH [of rs1] rest show ?thesis by (simp add: Dequeue rs)
  qed
qed

subsection \<open>The length test\<close>

text \<open>
  A declared length that differs from the element size as a number is rejected, unless
  the length is negative and the element size is \<open>2 ^ 31\<close> or more.
\<close>

lemma mismatch_rejected:
  assumes "sint len \<noteq> uint (element_size h)"
    and "0 \<le> sint len \<or> unat (element_size h) < 2 ^ 31"
  shows "shmemq_try_enqueue h m el len = Inr (False, m)"
    and "shmemq_try_dequeue h m out len = Inr (False, m, out)"
proof -
  have "len \<noteq> element_size h"
  proof
    assume eq: "len = element_size h"
    have "unat (element_size h) < 2 ^ 31"
    proof (cases "0 \<le> sint len")
      case True
      then have "\<not> bit (element_size h) (LENGTH(32) - 1)"
        using bit_last_iff [of "element_size h"] by (simp add: eq)
      from no_top_bit_small [OF this] show ?thesis by simp
    next
      case False
      then show ?thesis using assms(2) by simp
    qed
    then have "sint (element_size h) = uint (element_size h)" by (rule sint_is_uint)
    then show False using assms(1) by (simp add: eq)
  qed
  then show "shmemq_try_enqueue h m el len = Inr (False, m)"
    and "shmemq_try_dequeue h m out len = Inr (False, m, out)"
    by (simp_all add: shmemq_try_enqueue_def shmemq_try_dequeue_def)
qed

subsection \<open>The difference of the indices\<close>

lemma difference_in_range:
  assumes "configured h" and "ring_inv h seg" and "run_calls h seg cs = Inr (os, m)"
  shows "used m \<le> unat (max_size h)"
    and "(\<exists>m'. shmemq_try_enqueue h m el (element_size h) = Inr (False, m'))
           \<longleftrightarrow> used m = unat (max_size h)"
    and "unwrapped m \<Longrightarrow>
         (\<exists>m' e. shmemq_try_dequeue h m out (element_size h) = Inr (False, m', e))
           \<longleftrightarrow> used m = 0"
proof -
  have inv: "ring_inv h m" by (rule reach_inv [OF assms])
  show "used m \<le> unat (max_size h)" using inv by (simp add: ring_inv_def)
  show "(\<exists>m'. shmemq_try_enqueue h m el (element_size h) = Inr (False, m'))
           \<longleftrightarrow> used m = unat (max_size h)"
    by (simp add: enqueue_char [OF assms(1) inv])
  show "(\<exists>m' e. shmemq_try_dequeue h m out (element_size h) = Inr (False, m', e))
           \<longleftrightarrow> used m = 0" if "unwrapped m"
  proof -
    have "used m = unat (write_index m) - unat (read_index m)"
      using that by (simp add: unwrapped_def used_def unat_sub_if')
    then have "used m = 0 \<longleftrightarrow> unat (write_index m) \<le> unat (read_index m)"
      by simp
    then show ?thesis by (simp add: dequeue_char [OF assms(1) inv])
  qed
qed

subsection \<open>Rounds on a queue of one element\<close>

lemma round_single:
  assumes "configured h" "max_count h = 1" "0 < unat (element_size h)"
    and "unat (element_size h) \<le> length d"
    and "unat (element_size h) dvd unat x" "unat x + unat (element_size h) < 2 ^ 64"
    and "length p = unat (element_size h)" "length b = unat (element_size h)"
  shows "run_calls h (idle d x) [Enqueue p (element_size h), Dequeue b (element_size h)]
     = Inr ([Enqueued True, Dequeued True p],
            idle (p @ drop (unat (element_size h)) d) (x + ucast (element_size h)))"
proof -
  let ?E = "unat (element_size h)" and ?M = "unat (max_size h)"
  have M: "?M = ?E" using configured_max_size [OF assms(1)] assms(2) by simp
  have E: "0 < ?E" by (rule assms(3))
  have u0: "used (idle d x) = 0" by (simp add: used_def idle_def)
  have inv: "ring_inv h (idle d x)"
    using assms(4,5) M by (simp add: ring_inv_def u0) (simp add: idle_def)
  have room: "used (idle d x) < ?M" using u0 M E by simp
  have p: "?E \<le> length p" using assms(7) by simp
  have off: "unat x mod ?E = 0" using assms(5) by simp
  have st: "store h (idle d x) p
      = \<lparr>lock = Unlocked Process_Shared, read_index = x,
         write_index = x + ucast (element_size h), data = p @ drop ?E d\<rparr>"
    using assms(4,7) off by (simp add: store_def idle_def M)
  have enq: "shmemq_try_enqueue h (idle d x) p (element_size h) = Inr (True, store h (idle d x) p)"
    using room p by (simp add: enqueue_char [OF assms(1) inv])
  have inv1: "ring_inv h (store h (idle d x) p)"
    by (rule ring_inv_store [OF assms(1) inv room p])
  have w1: "unat (x + ucast (element_size h)) = unat x + ?E"
    using assms(6) by (simp add: unat_word_ariths unat_ucast_uint)
  have av: "unat (read_index (store h (idle d x) p)) < unat (write_index (store h (idle d x) p))"
    using w1 E by (simp add: st)
  have fr: "front h (store h (idle d x) p) = p"
    using assms(7) off by (simp add: front_def st M)
  have adv: "advance h (store h (idle d x) p) = idle (p @ drop ?E d) (x + ucast (element_size h))"
    unfolding st by (simp add: advance_def idle_def)
  have deq: "shmemq_try_dequeue h (store h (idle d x) p) b (element_size h)
      = Inr (True, idle (p @ drop ?E d) (x + ucast (element_size h)), p)"
    using av assms(8) fr adv by (simp add: dequeue_char [OF assms(1) inv1])
  show ?thesis by (simp add: enq deq)
qed

lemma rounds_run:
  assumes "configured h" "max_count h = 1" "0 < unat (element_size h)"
    and "unat (element_size h) + offsetof_data P \<le> unat (mmap_size h)"
    and "length p = unat (element_size h)" "length b = unat (element_size h)"
  shows "k * unat (element_size h) < 2 ^ 64 \<Longrightarrow>
     run_calls h (fresh P h) (rounds h p b k)
       = Inr (round_outcomes p k,
              idle (if k = 0 then replicate (unat (mmap_size h) - offsetof_data P) 0
                    else p @ replicate (unat (mmap_size h) - offsetof_data P
                                         - unat (element_size h)) 0)
                (of_nat (k * unat (element_size h))))"
proof (induction k)
  case 0
  show ?case by (simp add: fresh_def idle_def)
next
  case (Suc k)
  let ?E = "unat (element_size h)"
  let ?L = "unat (mmap_size h) - offsetof_data P"
  define d where "d = (if k = 0 then replicate ?L 0 else p @ replicate (?L - ?E) (0 :: byte))"
  define x :: ulong where "x = of_nat (k * ?E)"
  have less: "k * ?E + ?E < 2 ^ 64" using Suc.prems by (simp add: add.commute)
  then have k: "k * ?E < 2 ^ 64" by simp
  have ux: "unat x = k * ?E" using k by (simp add: x_def unat_of_nat del: of_nat_mult)
  have ih: "run_calls h (fresh P h) (rounds h p b k) = Inr (round_outcomes p k, idle d x)"
    unfolding d_def x_def by (rule Suc.IH [OF k])
  have "?E \<le> ?L" using assms(4) by arith
  then have ld: "?E \<le> length d" using assms(5) by (simp add: d_def)
  have dd: "p @ drop ?E d = p @ replicate (?L - ?E) 0" using assms(5) by (simp add: d_def)
  have dv: "?E dvd unat x" by (simp add: ux)
  have nw: "unat x + ?E < 2 ^ 64" using less by (simp add: ux)
  have step: "run_calls h (idle d x) [Enqueue p (element_size h), Dequeue b (element_size h)]
     = Inr ([Enqueued True, Dequeued True p],
            idle (p @ replicate (?L - ?E) 0) (x + ucast (element_size h)))"
    using round_single [OF assms(1,2,3) ld dv nw assms(5,6)] by (simp only: dd)
  have "x + ucast (element_size h) = of_nat (unat x + unat (ucast (element_size h) :: ulong))"
    by (rule word_arith_nat_add)
  then have nx: "x + ucast (element_size h) = of_nat (Suc k * ?E)"
    by (simp only: ux unat_ucast_uint mult_Suc add.commute)
  have r: "rounds h p b (Suc k) = rounds h p b k @ [Enqueue p (element_size h), Dequeue b (element_size h)]"
    by simp
  have o: "round_outcomes p (Suc k) = round_outcomes p k @ [Enqueued True, Dequeued True p]"
    by simp
  show ?case
    unfolding r o run_calls_append ih using step nx by (simp del: of_nat_mult of_nat_Suc)
qed

subsection \<open>Creation and teardown\<close>

lemmas os_defs = shmemq_new_def shmemq_new_map_def shmemq_new_fail_def shm_open_def
  ftruncate_def mmap_def munmap_def close_def shm_unlink_def malloc_def free_def
  with_segment_def pthread_mutex_init_def pages_def resize_def empty_object_def
  shmemq_destroy_def peer_step_def sizeof_shmemq_info_def

text \<open>
  A creating call that returns a handle leaves the segment \<open>fresh\<close> of that handle, whatever
  the sizes are, and the size of the mapping is not negative as an \<^verbatim>\<open>off_t\<close>.
\<close>

lemma created_segment_fresh:
  assumes "creates P ch os nm count esize h seg"
  shows "seg = fresh P h" and "max_count h = count" and "element_size h = esize"
    and "max_size h = count * ucast esize"
    and "mmap_size h = count * ucast esize + sizeof_shmemq_info P - 1"
    and "0 \<le> sint (mmap_size h)"
  using assms
  by (auto simp: creates_def os_defs fresh_def Let_def
      split: if_splits option.splits sum.splits prod.splits bool.splits)

text \<open>
  For sizes that fit, the created segment has the whole ring and satisfies the invariant.
\<close>

lemma created_sizes:
  assumes "creates P ch os nm count esize h seg" and "fits P count esize"
  shows "unat (max_size h) = unat count * unat esize"
    and "unat (max_size h) + offsetof_data P \<le> unat (mmap_size h)"
    and "unat (mmap_size h) < 2 ^ 63"
    and "max_size h = max_count h * ucast (element_size h)"
    and "unat (max_count h) * unat (element_size h) < 2 ^ 64"
proof -
  let ?S = "offsetof_data P + 1 + tail_padding P"
  let ?N = "unat count * unat esize"
  note F = created_segment_fresh [OF assms(1)]
  have le: "?N + ?S \<le> 2 ^ 64" using assms(2) by (simp add: fits_def)
  then have lt: "?N < 2 ^ 64" by arith
  have M: "unat (count * ucast esize :: ulong) = ?N"
    using unat_mult_lem [of count "ucast esize :: ulong"] lt by (simp add: unat_ucast_uint)
  show "unat (max_size h) = ?N" by (simp only: F(4) M)
  show "max_size h = max_count h * ucast (element_size h)" by (simp only: F(2,3,4))
  show "unat (max_count h) * unat (element_size h) < 2 ^ 64" using lt by (simp only: F(2,3))
  have "(of_nat (unat (count * ucast esize :: ulong)) :: ulong) = count * ucast esize" by simp
  then have "count * ucast esize = (of_nat ?N :: ulong)" by (simp only: M)
  then have "mmap_size h = of_nat ?N + of_nat ?S - 1"
    by (simp only: F(5) sizeof_shmemq_info_def)
  also have "\<dots> = of_nat (?N + ?S - 1)" by simp
  finally have "unat (mmap_size h) = (?N + ?S - 1) mod 2 ^ 64"
    by (simp only: unat_of_nat) simp
  moreover have "?N + ?S - 1 < 2 ^ 64" using le by arith
  ultimately have mm: "unat (mmap_size h) = ?N + ?S - 1" by simp
  show "unat (max_size h) + offsetof_data P \<le> unat (mmap_size h)"
    using mm by (simp add: F(4) M)
  show "unat (mmap_size h) < 2 ^ 63" by (rule nonneg_off_t [OF F(6)])
qed

lemma created_inv:
  assumes "creates P ch os nm count esize h seg" and "fits P count esize"
  shows "ring_inv h seg" and "length (data seg) < 2 ^ 63"
proof -
  have seg: "seg = fresh P h" by (rule created_segment_fresh(1) [OF assms(1)])
  show "ring_inv h seg" unfolding seg by (rule ring_inv_fresh [OF created_sizes(2) [OF assms]])
  show "length (data seg) < 2 ^ 63"
    using created_sizes(3) [OF assms] by (simp add: seg fresh_def)
qed

lemma created_configured:
  assumes "creates P ch os nm count esize h seg" and "fits P count esize"
    and "unat esize < 2 ^ 31"
  shows "configured h"
  using created_sizes(4,5) [OF assms(1,2)] assms(3) created_segment_fresh(3) [OF assms(1)]
  by (simp add: configured_def)

text \<open>
  What a failing \<^verbatim>\<open>shmemq_new\<close> gives back: the descriptor, the heap blocks and, when the
  object did not exist before and no other process made it meanwhile, the name.
\<close>

lemma failure_releases:
  assumes "shmemq_new P ch os nm count esize = (None, os')"
    and "descriptors os (int (next_fd ch)) = None"
  shows "descriptors os' = descriptors os" and "heap os' = heap os" and "mapped os' = mapped os"
    and "objects os nm = None \<Longrightarrow> peer_creates ch = None \<Longrightarrow> objects os' = objects os"
  using assms
  by (auto simp: os_defs Let_def
      split: if_splits option.splits sum.splits prod.splits bool.splits)

text \<open>
  Without another process in between, a call that returns a handle initialises the
  segment when the object did not exist, and leaves every object as it was when it did.
\<close>

lemma sequential_initialisation:
  assumes "shmemq_new P ch os nm count esize = (Some h, os')" and "peer_creates ch = None"
  shows "objects os nm = None \<Longrightarrow>
           \<exists>seg. objects os' nm = Some seg \<and> read_index seg = 0 \<and> write_index seg = 0 \<and>
                 lock seg = Unlocked Process_Shared"
    and "objects os nm \<noteq> None \<Longrightarrow> objects os' = objects os"
  using assms
  by (auto simp: os_defs Let_def split: if_splits option.splits sum.splits prod.splits bool.splits)

lemma destroy_effects:
  "descriptors (shmemq_destroy P os h u) = (descriptors os)(shmem_fd h := None)"
  "objects (shmemq_destroy P os h u) = (if u \<noteq> 0 then (objects os)(name h := None) else objects os)"
  "mapped (shmemq_destroy P os h u) = mapped (munmap P os (mem h) (max_size h))"
  "heap (shmemq_destroy P os h u) = heap os - 2"
  by (simp_all add: os_defs Let_def numeral_2_eq_2)

subsection \<open>Concrete runs\<close>

lemma configured_bench_q: "configured bench_q"
  by (simp add: configured_def bench_q_def)


lemma bench_fill:
  "run_calls bench_q (fresh linux bench_q) [Enqueue v1 8, Enqueue v2 8, Enqueue v3 8, Enqueue v4 8]
     = Inr ([Enqueued True, Enqueued True, Enqueued True, Enqueued True], bench_full)"
  by (simp add: bench_q_def bench_full_def fresh_def linux_def v1_def v2_def v3_def v4_def
      shmemq_try_enqueue_def pthread_mutex_lock_def pthread_mutex_unlock_def memcpy_def)

lemma configured_tri_q: "configured tri_q"
  by (simp add: configured_def tri_q_def)

lemma tri_rounds:
  "run_calls tri_q (fresh linux tri_q) (rounds tri_q tri tri_buf 6148914691236517205)
     = Inr (round_outcomes tri 6148914691236517205,
            idle (tri @ replicate 7 0) 18446744073709551615)"
proof -
  have "run_calls tri_q (fresh linux tri_q) (rounds tri_q tri tri_buf 6148914691236517205)
     = Inr (round_outcomes tri 6148914691236517205,
          idle (if (6148914691236517205 :: nat) = 0
                then replicate (unat (mmap_size tri_q) - offsetof_data linux) 0
                else tri @ replicate (unat (mmap_size tri_q) - offsetof_data linux
                                       - unat (element_size tri_q)) 0)
            (of_nat (6148914691236517205 * unat (element_size tri_q))))"
    by (rule rounds_run [OF configured_tri_q])
      (simp_all add: tri_q_def tri_def tri_buf_def linux_def)
  then show ?thesis by (simp add: tri_q_def linux_def)
qed

lemma tri_wrap_enqueue:
  "shmemq_try_enqueue tri_q (idle (tri @ replicate 7 0) 18446744073709551615) tri 3
     = Inr (True, tri_wrapped)"
  by (simp add: tri_q_def idle_def tri_def tri_wrapped_def shmemq_try_enqueue_def
      pthread_mutex_lock_def pthread_mutex_unlock_def memcpy_def)

lemma configured_unit_q: "configured unit_q"
  by (simp add: configured_def unit_q_def)

lemma unit_rounds:
  "run_calls unit_q (fresh linux unit_q) (rounds unit_q [7] [0] 18446744073709551615)
     = Inr (round_outcomes [7] 18446744073709551615,
            idle (7 # replicate 7 0) 18446744073709551615)"
proof -
  have "run_calls unit_q (fresh linux unit_q) (rounds unit_q [7] [0] 18446744073709551615)
     = Inr (round_outcomes [7] 18446744073709551615,
          idle (if (18446744073709551615 :: nat) = 0
                then replicate (unat (mmap_size unit_q) - offsetof_data linux) 0
                else [7] @ replicate (unat (mmap_size unit_q) - offsetof_data linux
                                       - unat (element_size unit_q)) 0)
            (of_nat (18446744073709551615 * unat (element_size unit_q))))"
    by (rule rounds_run [OF configured_unit_q]) (simp_all add: unit_q_def linux_def)
  then show ?thesis by (simp add: unit_q_def linux_def)
qed

lemma unit_wrap_calls:
  "run_calls unit_q (idle (7 # replicate 7 0) 18446744073709551615)
     [Enqueue [7] 1, Dequeue [0] 1, Enqueue [7] 1]
     = Inr ([Enqueued True, Dequeued False [0], Enqueued False], unit_wrapped)"
  by (simp add: unit_q_def idle_def unit_wrapped_def shmemq_try_enqueue_def shmemq_try_dequeue_def
      pthread_mutex_lock_def pthread_mutex_unlock_def memcpy_def)

lemma create_bench_q:
  "shmemq_new linux smooth boot ''bench_q'' 4 8 = (Some bench_q, bench_os)"
  by (simp add: os_defs linux_def smooth_def boot_def bench_q_def bench_os_def fresh_def)

lemma attach_bench_q:
  "shmemq_new linux smooth peer_os ''bench_q'' 4 8 = (Some bench_q, attached_os)"
  by (simp add: os_defs linux_def smooth_def peer_os_def bench_q_def attached_os_def)

lemma create_page_q:
  "shmemq_new linux smooth boot ''page_q'' 1 4096 = (Some page_q, page_os)"
  by (simp add: os_defs linux_def smooth_def boot_def page_q_def page_os_def fresh_def)
lemmas ring_defs = shmemq_try_enqueue_def shmemq_try_dequeue_def
  pthread_mutex_lock_def pthread_mutex_unlock_def memcpy_def

lemma creates_bench_q: "creates linux smooth boot ''bench_q'' 4 8 bench_q (fresh linux bench_q)"
  by (simp add: creates_def create_bench_q) (simp add: boot_def smooth_def bench_os_def)

lemma fits_bench_q: "fits linux 4 8"
  by (simp add: fits_def linux_def)

lemma creates_skew_q:
  "creates linux smooth boot ''skew_q'' 12297829382473034412 3 skew_q (fresh linux skew_q)"
  by (simp add: creates_def os_defs linux_def smooth_def boot_def skew_q_def fresh_def)

lemma creates_over_q:
  "creates linux smooth boot ''over_q'' 2305843009213693953 8 over_q (fresh linux over_q)"
  by (simp add: creates_def os_defs linux_def smooth_def boot_def over_q_def fresh_def)


lemma creates_zero_q:
  "creates linux smooth boot ''zero_q'' 4 0 zero_q (fresh linux zero_q)"
  by (simp add: creates_def os_defs linux_def smooth_def boot_def zero_q_def fresh_def)

lemma creates_giant_q:
  "creates linux smooth boot ''giant_q'' 1 4294967295 giant_q (fresh linux giant_q)"
  by (simp add: creates_def os_defs linux_def smooth_def boot_def giant_q_def fresh_def
      del: upt_rec_numeral)


lemma skew_steps:
  "shmemq_try_enqueue skew_q (fresh linux skew_q) ea 3 = Inr (True, skew_one)"
  "shmemq_try_enqueue skew_q skew_one eb 3 = Inr (True, skew_two)"
  by (simp_all add: skew_q_def skew_one_def skew_two_def fresh_def linux_def ea_def eb_def ring_defs)

lemma over_run:
  "run_calls over_q (fresh linux over_q) [Enqueue v1 8, Enqueue v2 8]
     = Inr ([Enqueued True, Enqueued False], over_one)"
  by (simp add: over_q_def over_one_def fresh_def linux_def v1_def v2_def ring_defs)

lemma zero_run:
  "run_calls zero_q (fresh linux zero_q) [Enqueue [] 0] = Inr ([Enqueued False], fresh linux zero_q)"
  by (simp add: zero_q_def fresh_def linux_def ring_defs)


lemma giant_enqueue:
  "shmemq_try_enqueue giant_q (fresh linux giant_q) tri (- 1) = Inl OutOfBounds"
  "shmemq_try_enqueue giant_q ((fresh linux giant_q)\<lparr>lock := Locked Process_Shared\<rparr>) tri (- 1)
     = Inl LockUnavailable"
  "shmemq_try_dequeue giant_q (fresh linux giant_q) tri_buf (- 1)
     = Inr (False, fresh linux giant_q, tri_buf)"
  "shmemq_try_dequeue giant_q ((fresh linux giant_q)\<lparr>lock := Locked Process_Shared\<rparr>) tri_buf (- 1)
     = Inl LockUnavailable"
  "sint (- 1 :: uint) = - 1" "uint (element_size giant_q) = 4294967295"
  by (simp_all add: giant_q_def fresh_def linux_def tri_def tri_buf_def ring_defs unsigned_minus_1_eq_mask mask_eq_exp_minus_1)

lemma giant_element:
  "length (replicate 4294967295 (7 :: byte)) = unat (element_size giant_q)"
  "(- 1 :: uint) = element_size giant_q"
  "shmemq_try_enqueue giant_q (fresh linux giant_q) (replicate 4294967295 7) (- 1)
     = Inl OutOfBounds"
  by (simp_all add: giant_q_def fresh_def linux_def ring_defs
      unsigned_minus_1_eq_mask mask_eq_exp_minus_1)

lemma race:
  "shmemq_new linux (smooth\<lparr>peer_creates := Some bench_busy\<rparr>) boot ''bench_q'' 4 8
     = (Some bench_q, \<lparr>objects = [''bench_q'' \<mapsto> bench_reset],
                descriptors = [3 \<mapsto> ''bench_q''], mapped = [100], heap = 2\<rparr>)"
  by (simp add: os_defs linux_def smooth_def boot_def bench_q_def bench_busy_def bench_reset_def
        v1_def v2_def v3_def v4_def)


section \<open>The claims\<close>




text \<open>
  C2 (capacity), as the code has it. Let \<^verbatim>\<open>shmemq_new\<close> create a queue with a positive
  element size and sizes that fit (\<open>max_count * element_size + sizeof(struct shmemq_info) - 1\<close>
  below \<open>2 ^ 64\<close>), and let \<open>len\<close> be the right length: the \<^verbatim>\<open>int\<close> that equals the element
  size. Starting from the created segment, \<open>max_count\<close> consecutive calls of
  \<^verbatim>\<open>shmemq_try_enqueue\<close> with this length (and a buffer that holds an element) all return
  true. In the segment they leave, every further enqueue returns false and changes
  nothing, and this stays so through any calls among which no dequeue succeeds. A dequeue
  then succeeds (the capacity being positive), after which one enqueue succeeds and the
  next one fails again.
\<close>

theorem capacity_bound:
  assumes "creates P ch os nm count esize h seg" and "fits P count esize"
    and "0 < unat esize" and "sint len = uint esize"
    and "length ps = unat count" and "\<forall>p \<in> set ps. unat esize \<le> length p"
  shows "\<exists>m. run_calls h seg (map (\<lambda>p. Enqueue p len) ps)
               = Inr (replicate (unat count) (Enqueued True), m) \<and>
           (\<forall>el. shmemq_try_enqueue h m el len = Inr (False, m)) \<and>
           (\<forall>cs rs m'. run_calls h m cs = Inr (rs, m') \<and> (\<forall>e. Dequeued True e \<notin> set rs)
               \<longrightarrow> m' = m \<and> Enqueued True \<notin> set rs) \<and>
           (\<forall>out el. 0 < unat count \<and> unat esize \<le> length out \<and> unat esize \<le> length el \<longrightarrow>
              (\<exists>m1 e m2. shmemq_try_dequeue h m out len = Inr (True, m1, e) \<and>
                 shmemq_try_enqueue h m1 el len = Inr (True, m2) \<and>
                 (\<forall>el'. shmemq_try_enqueue h m2 el' len = Inr (False, m2))))"
proof -
  let ?E = "unat (element_size h)" and ?M = "unat (max_size h)"
  have len: "len = esize" and small: "unat esize < 2 ^ 31"
    by (rule sint_len [OF assms(4)])+
  have cf: "configured h" by (rule created_configured [OF assms(1,2) small])
  have seg: "seg = fresh P h" and mc: "max_count h = count" and es: "element_size h = esize"
    by (rule created_segment_fresh [OF assms(1)])+
  have inv0: "ring_inv h seg" by (rule created_inv(1) [OF assms(1,2)])
  have M: "?M = unat (max_count h) * ?E" by (rule configured_max_size [OF cf])
  have E: "0 < ?E" using assms(3) by (simp only: es)
  have l: "length ps = unat (max_count h)" using assms(5) by (simp only: mc)
  have s: "\<forall>p \<in> set ps. ?E \<le> length p" using assms(6) by (simp only: es)
  have u0: "used seg = 0" by (simp add: seg used_def fresh_def)
  have "used seg + length ps * ?E \<le> ?M" using M l u0 by simp
  from fill [OF cf E inv0 this s]
  obtain m where run: "run_calls h seg (map (\<lambda>p. Enqueue p (element_size h)) ps)
             = Inr (replicate (length ps) (Enqueued True), m)"
    and inv: "ring_inv h m" and um: "used m = used seg + length ps * ?E"
    and rm: "read_index m = read_index seg"
    by blast
  have full: "used m = ?M" using um u0 M l by simp
  have r0: "read_index m = 0" using rm by (simp add: seg fresh_def)
  have enq: "shmemq_try_enqueue h m el (element_size h) = Inr (False, m)" for el
    using full by (simp add: enqueue_char [OF cf inv])
  have after: "\<exists>m1 e m2. shmemq_try_dequeue h m out (element_size h) = Inr (True, m1, e) \<and>
                 shmemq_try_enqueue h m1 el (element_size h) = Inr (True, m2) \<and>
                 (\<forall>el'. shmemq_try_enqueue h m2 el' (element_size h) = Inr (False, m2))"
    if C: "0 < unat (max_count h)" and out: "?E \<le> length out" and el: "?E \<le> length el"
    for out el
  proof -
    have "0 < ?M" using M C E by simp
    then have av: "unat (read_index m) < unat (write_index m)"
      using full r0 by (simp add: used_def)
    have deq: "shmemq_try_dequeue h m out (element_size h)
        = Inr (True, advance h m, front h m @ drop ?E out)"
      using av out by (simp add: dequeue_char [OF cf inv])
    have inv1: "ring_inv h (advance h m)" by (rule ring_inv_advance [OF cf inv av])
    have u1: "used (advance h m) = ?M - ?E" using used_advance [OF cf inv av] full by simp
    then have room: "used (advance h m) < ?M" using \<open>0 < ?M\<close> E by simp
    have enq1: "shmemq_try_enqueue h (advance h m) el (element_size h)
        = Inr (True, store h (advance h m) el)"
      using room el by (simp add: enqueue_char [OF cf inv1])
    have inv2: "ring_inv h (store h (advance h m) el)"
      by (rule ring_inv_store [OF cf inv1 room el])
    have "?E \<le> ?M" using M C by (cases "unat (max_count h)") auto
    then have u2: "used (store h (advance h m) el) = ?M"
      using used_store [OF cf inv1 room, of el] u1 by simp
    have "shmemq_try_enqueue h (store h (advance h m) el) el' (element_size h)
        = Inr (False, store h (advance h m) el)" for el'
      using u2 by (simp add: enqueue_char [OF cf inv2])
    with deq enq1 show ?thesis by blast
  qed
  have "run_calls h seg (map (\<lambda>p. Enqueue p (element_size h)) ps)
               = Inr (replicate (unat (max_count h)) (Enqueued True), m) \<and>
           (\<forall>el. shmemq_try_enqueue h m el (element_size h) = Inr (False, m)) \<and>
           (\<forall>cs rs m'. run_calls h m cs = Inr (rs, m') \<and> (\<forall>e. Dequeued True e \<notin> set rs)
               \<longrightarrow> m' = m \<and> Enqueued True \<notin> set rs) \<and>
           (\<forall>out el. 0 < unat (max_count h) \<and> ?E \<le> length out \<and> ?E \<le> length el \<longrightarrow>
              (\<exists>m1 e m2. shmemq_try_dequeue h m out (element_size h) = Inr (True, m1, e) \<and>
                 shmemq_try_enqueue h m1 el (element_size h) = Inr (True, m2) \<and>
                 (\<forall>el'. shmemq_try_enqueue h m2 el' (element_size h) = Inr (False, m2))))"
    using run enq after stuck_until_dequeue [OF cf inv full] l
    by (simp, blast)
  then show ?thesis unfolding mc es len by (rule exI)
qed

theorem capacity_bound_witness:
  "creates linux smooth boot ''bench_q'' 4 8 bench_q (fresh linux bench_q) \<and> fits linux 4 8 \<and>
   0 < unat (8 :: uint) \<and> sint (8 :: uint) = uint (8 :: uint) \<and>
   length [v1, v2, v3, v4] = unat (4 :: ulong) \<and>
   list_all (\<lambda>p. unat (8 :: uint) \<le> length p) [v1, v2, v3, v4] \<and>
   (\<exists>m. run_calls bench_q (fresh linux bench_q) (map (\<lambda>p. Enqueue p 8) [v1, v2, v3, v4])
               = Inr (replicate (unat (4 :: ulong)) (Enqueued True), m) \<and>
        shmemq_try_enqueue bench_q m v5 8 = Inr (False, m) \<and>
        (\<exists>m1 e m2. shmemq_try_dequeue bench_q m buf 8 = Inr (True, m1, e) \<and>
           shmemq_try_enqueue bench_q m1 v5 8 = Inr (True, m2) \<and>
           shmemq_try_enqueue bench_q m2 v5 8 = Inr (False, m2)))"
proof -
  have e: "0 < unat (8 :: uint)" "sint (8 :: uint) = uint (8 :: uint)" by simp_all
  have l: "length [v1, v2, v3, v4] = unat (4 :: ulong)" by simp
  have s: "\<forall>p \<in> set [v1, v2, v3, v4]. unat (8 :: uint) \<le> length p"
    by (simp add: v1_def v2_def v3_def v4_def)
  have pos: "0 < unat (4 :: ulong)" "unat (8 :: uint) \<le> length buf" "unat (8 :: uint) \<le> length v5"
    by (simp_all add: buf_def v5_def)
  from capacity_bound [OF creates_bench_q fits_bench_q e l s]
  have "\<exists>m. run_calls bench_q (fresh linux bench_q) (map (\<lambda>p. Enqueue p 8) [v1, v2, v3, v4])
               = Inr (replicate (unat (4 :: ulong)) (Enqueued True), m) \<and>
        shmemq_try_enqueue bench_q m v5 8 = Inr (False, m) \<and>
        (\<exists>m1 e m2. shmemq_try_dequeue bench_q m buf 8 = Inr (True, m1, e) \<and>
           shmemq_try_enqueue bench_q m1 v5 8 = Inr (True, m2) \<and>
           shmemq_try_enqueue bench_q m2 v5 8 = Inr (False, m2))"
    using pos by blast
  moreover have "list_all (\<lambda>p. unat (8 :: uint) \<le> length p) [v1, v2, v3, v4]"
    using s by (simp only: list_all_iff)
  ultimately show ?thesis using creates_bench_q fits_bench_q e l by (intro conjI)
qed

text \<open>
  What C2 says as it is written fails for an element size of 0, for sizes that do not
  fit, and for an element size that no \<^verbatim>\<open>int\<close> equals. \<open>zero_q\<close> is created with capacity 4
  and elements of no bytes: \<open>max_size\<close> is 0 and the first enqueue with the right length,
  0, returns false. \<open>over_q\<close> is created with capacity 2305843009213693953 and elements of
  8 bytes: the product wraps, \<open>max_size\<close> is 8, and the second enqueue with the right length
  returns false. \<open>giant_q\<close> is created with one element of 4294967295 bytes: the only
  length that passes the test of line 93 has the 32 bits of the element size, which is
  \<open>- 1\<close> as an \<^verbatim>\<open>int\<close>, and the first enqueue of an element with it does not return true.
\<close>

theorem capacity_counterexample:
  "creates linux smooth boot ''zero_q'' 4 0 zero_q (fresh linux zero_q) \<and>
   sint (0 :: uint) = uint (element_size zero_q) \<and> 1 \<le> unat (max_count zero_q) \<and>
   run_calls zero_q (fresh linux zero_q) [Enqueue [] 0]
     = Inr ([Enqueued False], fresh linux zero_q) \<and>
   creates linux smooth boot ''over_q'' 2305843009213693953 8 over_q (fresh linux over_q) \<and>
   \<not> fits linux 2305843009213693953 8 \<and>
   sint (8 :: uint) = uint (element_size over_q) \<and> 2 \<le> unat (max_count over_q) \<and>
   run_calls over_q (fresh linux over_q) [Enqueue v1 8, Enqueue v2 8]
     = Inr ([Enqueued True, Enqueued False], over_one) \<and>
   creates linux smooth boot ''giant_q'' 1 4294967295 giant_q (fresh linux giant_q) \<and>
   (- 1 :: uint) = element_size giant_q \<and> 1 \<le> unat (max_count giant_q) \<and>
   length (replicate 4294967295 (7 :: byte)) = unat (element_size giant_q) \<and>
   shmemq_try_enqueue giant_q (fresh linux giant_q) (replicate 4294967295 7) (- 1)
     = Inl OutOfBounds"
proof -
  have "sint (0 :: uint) = uint (element_size zero_q)" "1 \<le> unat (max_count zero_q)"
    by (simp_all add: zero_q_def)
  moreover have "sint (8 :: uint) = uint (element_size over_q)" "2 \<le> unat (max_count over_q)"
    by (simp_all add: over_q_def)
  moreover have "\<not> fits linux 2305843009213693953 8" by (simp add: fits_def linux_def)
  moreover have "1 \<le> unat (max_count giant_q)" by (simp add: giant_q_def)
  ultimately show ?thesis
    using creates_zero_q zero_run creates_over_q over_run creates_giant_q giant_element
    by (intro conjI)
qed




text \<open>
  C4 (the difference of the indices), at the input where the code departs from it. The
  queue \<open>unit_q\<close> of one element of one byte goes through \<open>2 ^ 64 - 1\<close> rounds of one
  enqueue and one dequeue, which bring both indices to \<open>2 ^ 64 - 1\<close>. The next enqueue
  succeeds and wraps the write index to 0. In that segment the difference
  \<^verbatim>\<open>write_index - read_index\<close> is 1, the size of the queue, and not 0, but the dequeue
  returns false (its test \<^verbatim>\<open>read_index >= write_index\<close> compares the indices, not their
  difference); the enqueue returns false as well, so the queue stays as it is.
\<close>

theorem wrapped_queue_refuses_dequeue:
  "run_calls unit_q (fresh linux unit_q)
     (rounds unit_q [7] [0] 18446744073709551615 @ [Enqueue [7] 1, Dequeue [0] 1, Enqueue [7] 1])
     = Inr (round_outcomes [7] 18446744073709551615 @
              [Enqueued True, Dequeued False [0], Enqueued False], unit_wrapped) \<and>
   used unit_wrapped = 1 \<and> unat (max_size unit_q) = 1"
proof (intro conjI)
  show "run_calls unit_q (fresh linux unit_q)
     (rounds unit_q [7] [0] 18446744073709551615 @ [Enqueue [7] 1, Dequeue [0] 1, Enqueue [7] 1])
     = Inr (round_outcomes [7] 18446744073709551615 @
              [Enqueued True, Dequeued False [0], Enqueued False], unit_wrapped)"
    by (simp only: run_calls_append unit_rounds unit_wrap_calls sum.case prod.case)
  show "used unit_wrapped = 1" by (simp add: used_def unit_wrapped_def)
  show "unat (max_size unit_q) = 1" by (simp add: unit_q_def)
qed

text \<open>
  C5 (length rejection), at the input where the code departs from it. \<open>giant_q\<close> is
  created with one element of 4294967295 bytes. A call declares the length \<open>- 1\<close>, which
  differs from the element size. Line 93 compares the two as \<^verbatim>\<open>unsigned int\<close>, where
  \<open>- 1\<close> is 4294967295, so the call is not rejected: it goes on to the mutex (a call on
  a segment whose mutex is held does not return false, it waits), and on the created
  segment the enqueue hands the length to \<^verbatim>\<open>memcpy\<close>, as \<open>2 ^ 64 - 1\<close> bytes, a copy that
  leaves the object; the dequeue takes the mutex and returns false only because the queue
  is empty.
\<close>

theorem negative_length_not_rejected:
  "creates linux smooth boot ''giant_q'' 1 4294967295 giant_q (fresh linux giant_q) \<and>
   sint (- 1 :: uint) = - 1 \<and> uint (element_size giant_q) = 4294967295 \<and>
   shmemq_try_enqueue giant_q ((fresh linux giant_q)\<lparr>lock := Locked Process_Shared\<rparr>) tri (- 1)
     = Inl LockUnavailable \<and>
   shmemq_try_dequeue giant_q ((fresh linux giant_q)\<lparr>lock := Locked Process_Shared\<rparr>) tri_buf (- 1)
     = Inl LockUnavailable \<and>
   shmemq_try_enqueue giant_q (fresh linux giant_q) tri (- 1) = Inl OutOfBounds"
  using creates_giant_q giant_enqueue by (intro conjI)

text \<open>
  C6 (cleanup on failure), at the input where the code departs from it. Another process
  has created \<open>bench_q\<close> and filled it. This process calls \<^verbatim>\<open>shmemq_new\<close> for it, the
  first \<^verbatim>\<open>shm_open\<close> succeeds (so the call has created nothing), and \<^verbatim>\<open>mmap\<close> fails. The
  call returns \<^verbatim>\<open>NULL\<close> with the descriptor closed and the heap blocks freed, and the
  object of the other process is gone from the namespace.
\<close>

theorem failed_attach_unlinks:
  "objects peer_os ''bench_q'' = Some bench_full \<and>
   shmemq_new linux (smooth\<lparr>mmap_fails := True\<rparr>) peer_os ''bench_q'' 4 8
     = (None, peer_os\<lparr>objects := Map.empty\<rparr>)"
  by (simp add: os_defs linux_def smooth_def peer_os_def)

text \<open>
  C7 (initialisation by the creator only), at the input where the code departs from it.
  The object \<open>bench_q\<close> does not exist when this process calls \<^verbatim>\<open>shmemq_new\<close>, so the
  \<^verbatim>\<open>shm_open\<close> of line 47 fails with \<^verbatim>\<open>ENOENT\<close>. Before line 50 another process creates
  the object, fills it with four elements and is inside an operation, holding the mutex.
  Line 50 opens that object (\<^verbatim>\<open>O_CREAT\<close> without \<^verbatim>\<open>O_EXCL\<close>), line 54 sets \<open>created\<close>, and
  the call, which has created nothing, sets both indices to 0 and initialises the mutex
  again: the four elements are lost and the mutex that the other process holds is
  unlocked.
\<close>

theorem racing_create_reinitialises:
  "objects boot ''bench_q'' = None \<and>
   write_index bench_busy = 32 \<and> lock bench_busy = Locked Process_Shared \<and>
   shmemq_new linux (smooth\<lparr>peer_creates := Some bench_busy\<rparr>) boot ''bench_q'' 4 8
     = (Some bench_q, \<lparr>objects = [''bench_q'' \<mapsto> bench_reset],
                descriptors = [3 \<mapsto> ''bench_q''], mapped = [100], heap = 2\<rparr>) \<and>
   read_index bench_reset = 0 \<and> write_index bench_reset = 0 \<and>
   lock bench_reset = Unlocked Process_Shared \<and> data bench_reset = data bench_busy"
proof -
  have "objects boot ''bench_q'' = None" by (simp add: boot_def)
  moreover have "write_index bench_busy = 32" "lock bench_busy = Locked Process_Shared"
    by (simp_all add: bench_busy_def)
  moreover have "read_index bench_reset = 0" "write_index bench_reset = 0"
    "lock bench_reset = Unlocked Process_Shared" "data bench_reset = data bench_busy"
    by (simp_all add: bench_reset_def bench_busy_def)
  ultimately show ?thesis using race by (intro conjI)
qed

text \<open>
  C8 (teardown), at the input where the code departs from it. \<open>page_q\<close> has one element
  of 4096 bytes; on Linux its mapping has 4159 bytes, two pages. \<^verbatim>\<open>shmemq_destroy\<close> passes
  \<open>max_size\<close>, 4096, to \<^verbatim>\<open>munmap\<close>, which unmaps the first page: the second one stays
  mapped. The descriptor is closed, the heap blocks are freed, and without the unlink
  flag the object stays.
\<close>

theorem destroy_leaves_page_mapped:
  "shmemq_new linux smooth boot ''page_q'' 1 4096 = (Some page_q, page_os) \<and>
   mapped page_os = [100, 101] \<and>
   shmemq_destroy linux page_os page_q 0
     = \<lparr>objects = [''page_q'' \<mapsto> fresh linux page_q], descriptors = Map.empty,
        mapped = [101], heap = 0\<rparr>"
  by (simp add: create_page_q) (simp add: os_defs linux_def page_q_def page_os_def)

text \<open>
  C9 (copies stay inside the array), as the code has it. Let \<^verbatim>\<open>shmemq_new\<close> create a queue
  whose sizes fit (\<open>max_count * element_size + sizeof(struct shmemq_info) - 1\<close> below
  \<open>2 ^ 64\<close>). Then \<open>max_size\<close> is \<open>max_count\<close> times \<open>element_size\<close> as a number, and in every
  segment reached from the created one the object holds the \<open>max_size\<close> bytes of the array,
  the read index is a multiple of \<open>element_size\<close> and so is the difference
  \<^verbatim>\<open>write_index - read_index\<close>; the write index is a multiple as long as it has not wrapped
  past \<open>2 ^ 64\<close>. Whenever a call copies (an enqueue with room, a dequeue with an element),
  the range from \<open>index mod max_size\<close> of \<open>element_size\<close> bytes ends inside the array, and
  no call with a declared length that is not negative and a buffer that holds an element
  faults.
\<close>

theorem copies_stay_in_bounds:
  assumes "creates P ch os nm count esize h seg" and "fits P count esize"
    and "run_calls h seg cs = Inr (rs, m)"
  shows "unat (max_size h) = unat count * unat esize \<and>
     unat (max_size h) \<le> length (data m) \<and>
     unat esize dvd unat (read_index m) \<and>
     unat esize dvd used m \<and>
     (unwrapped m \<longrightarrow> unat esize dvd unat (write_index m)) \<and>
     (used m < unat (max_size h) \<longrightarrow>
        unat (write_index m) mod unat (max_size h) + unat esize \<le> unat (max_size h)) \<and>
     (unat (read_index m) < unat (write_index m) \<longrightarrow>
        unat (read_index m) mod unat (max_size h) + unat esize \<le> unat (max_size h)) \<and>
     (\<forall>el len. 0 \<le> sint len \<and> unat esize \<le> length el \<longrightarrow>
        (\<exists>b m'. shmemq_try_enqueue h m el len = Inr (b, m'))) \<and>
     (\<forall>out len. 0 \<le> sint len \<and> unat esize \<le> length out \<longrightarrow>
        (\<exists>b m' e. shmemq_try_dequeue h m out len = Inr (b, m', e)))"
proof -
  let ?E = "unat (element_size h)" and ?M = "unat (max_size h)"
  have es: "element_size h = esize" and seg: "seg = fresh P h"
    by (rule created_segment_fresh [OF assms(1)])+
  have a: "?M = unat count * unat esize" by (rule created_sizes(1) [OF assms(1,2)])
  have inv0: "ring_inv h seg" by (rule created_inv(1) [OF assms(1,2)])
  have "?M \<le> length (data m) \<and> ?E dvd unat (read_index m) \<and> ?E dvd used m \<and>
     (unwrapped m \<longrightarrow> ?E dvd unat (write_index m)) \<and>
     (used m < ?M \<longrightarrow> unat (write_index m) mod ?M + ?E \<le> ?M) \<and>
     (unat (read_index m) < unat (write_index m) \<longrightarrow> unat (read_index m) mod ?M + ?E \<le> ?M) \<and>
     (\<forall>el len. 0 \<le> sint len \<and> ?E \<le> length el \<longrightarrow>
        (\<exists>b m'. shmemq_try_enqueue h m el len = Inr (b, m'))) \<and>
     (\<forall>out len. 0 \<le> sint len \<and> ?E \<le> length out \<longrightarrow>
        (\<exists>b m' e. shmemq_try_dequeue h m out len = Inr (b, m', e)))"
  proof (cases "unat esize < 2 ^ 31")
    case True
    have cf: "configured h" by (rule created_configured [OF assms(1,2) True])
    have inv: "ring_inv h m" by (rule reach_inv [OF cf inv0 assms(3)])
    have b: "?M \<le> length (data m)" "?E dvd unat (read_index m)" "?E dvd used m"
      using inv by (simp_all add: ring_inv_def)
    have c: "?E dvd unat (write_index m)" if "unwrapped m"
    proof -
      have "unat (write_index m) = unat (read_index m) + used m"
        using that by (simp add: unwrapped_def used_def unat_sub_if')
      then show ?thesis using b by simp
    qed
    have d: "\<exists>b m'. shmemq_try_enqueue h m el len = Inr (b, m')" if "?E \<le> length el" for el len
      using that by (auto simp add: enqueue_char [OF cf inv])
    have e: "\<exists>b m' e. shmemq_try_dequeue h m out len = Inr (b, m', e)" if "?E \<le> length out" for out len
      using that by (auto simp add: dequeue_char [OF cf inv])
    show ?thesis
      using b c d e write_offset_fits [OF cf inv] read_offset_fits(1) [OF cf inv]
      by (intro conjI allI impI) blast+
  next
    case False
    then have big: "2 ^ 31 \<le> ?E" by (simp add: es)
    have m: "m = seg" using quiet_run [OF big created_inv(2) [OF assms(1,2)] assms(3)] by simp
    have r: "read_index m = 0" "write_index m = 0" "used m = 0"
      by (simp_all add: m seg fresh_def used_def)
    have b: "?M \<le> length (data m)" using inv0 by (simp add: m ring_inv_def)
    have w: "unat (write_index m) mod ?M + ?E \<le> ?M" if "used m < ?M"
    proof -
      have "0 < unat count" using that a r by (cases "unat count") auto
      then have "unat esize \<le> unat count * unat esize" by simp
      then show ?thesis using a by (simp add: r es)
    qed
    have ne: "len \<noteq> element_size h" if "0 \<le> sint len" for len :: uint
    proof
      assume eq: "len = element_size h"
      have "\<not> bit len (LENGTH(32) - 1)" using bit_last_iff [of len] that by simp
      from no_top_bit_small [OF this] big show False by (simp add: eq)
    qed
    have d: "\<exists>b m'. shmemq_try_enqueue h m el len = Inr (b, m')" if "0 \<le> sint len" for el len
      using ne [OF that] by (auto simp add: shmemq_try_enqueue_def)
    have e: "\<exists>b m' e. shmemq_try_dequeue h m out len = Inr (b, m', e)" if "0 \<le> sint len" for out len
      using ne [OF that] by (auto simp add: shmemq_try_dequeue_def)
    show ?thesis
      using b w d e by (simp add: r)
  qed
  then show ?thesis using a by (simp only: es) simp
qed

theorem copies_stay_in_bounds_witness:
  "creates linux smooth boot ''bench_q'' 4 8 bench_q (fresh linux bench_q) \<and> fits linux 4 8 \<and>
   run_calls bench_q (fresh linux bench_q) [Enqueue v1 8, Enqueue v2 8, Enqueue v3 8, Enqueue v4 8]
     = Inr ([Enqueued True, Enqueued True, Enqueued True, Enqueued True], bench_full) \<and>
   unat (max_size bench_q) = unat (4 :: ulong) * unat (8 :: uint) \<and>
   unat (max_size bench_q) \<le> length (data bench_full) \<and>
   unat (8 :: uint) dvd unat (read_index bench_full) \<and>
   unat (8 :: uint) dvd used bench_full \<and>
   unat (8 :: uint) dvd unat (write_index bench_full) \<and>
   unat (read_index bench_full) mod unat (max_size bench_q) + unat (8 :: uint)
     \<le> unat (max_size bench_q) \<and>
   (\<exists>b m'. shmemq_try_enqueue bench_q bench_full v5 8 = Inr (b, m'))"
proof -
  have u: "unwrapped bench_full" by (simp add: unwrapped_def bench_full_def)
  have a: "unat (read_index bench_full) < unat (write_index bench_full)"
    by (simp add: bench_full_def)
  have l: "0 \<le> sint (8 :: uint) \<and> unat (8 :: uint) \<le> length v5" by (simp add: v5_def)
  note T = copies_stay_in_bounds [OF creates_bench_q fits_bench_q bench_fill]
  from T have 1: "unat (max_size bench_q) = unat (4 :: ulong) * unat (8 :: uint)"
    by blast
  from T have 2: "unat (max_size bench_q) \<le> length (data bench_full)" by blast
  from T have 3: "unat (8 :: uint) dvd unat (read_index bench_full)" by blast
  from T have 4: "unat (8 :: uint) dvd used bench_full" by blast
  from T u have 5: "unat (8 :: uint) dvd unat (write_index bench_full)" by blast
  from T a have 6: "unat (read_index bench_full) mod unat (max_size bench_q)
      + unat (8 :: uint) \<le> unat (max_size bench_q)" by blast
  from T l have 7: "\<exists>b m'. shmemq_try_enqueue bench_q bench_full v5 8 = Inr (b, m')" by blast
  from creates_bench_q fits_bench_q bench_fill 1 2 3 4 5 6 7 show ?thesis by (intro conjI)
qed

text \<open>
  What C9 says as it is written fails for sizes that do not fit, after the write index
  has wrapped, and for a negative length. On \<open>skew_q\<close>, created with capacity
  12297829382473034412 and elements of 3 bytes, \<open>max_size\<close> is 4 and not the product; after
  the first enqueue the queue is not full, and the second enqueue copies to the bytes 3
  to 5, past the 4 bytes of the array. On \<open>tri_q\<close>, whose elements have three bytes, the
  write index is 2 after \<open>6148914691236517205\<close> rounds and one more enqueue. On \<open>giant_q\<close>,
  whose sizes fit, the enqueue of an element with the declared length \<open>- 1\<close> copies
  \<open>2 ^ 64 - 1\<close> bytes, out of the object.
\<close>

theorem indices_multiples_counterexample:
  "creates linux smooth boot ''skew_q'' 12297829382473034412 3 skew_q (fresh linux skew_q) \<and>
   \<not> fits linux 12297829382473034412 3 \<and>
   unat (max_size skew_q) \<noteq> unat (max_count skew_q) * unat (element_size skew_q) \<and>
   shmemq_try_enqueue skew_q (fresh linux skew_q) ea 3 = Inr (True, skew_one) \<and>
   used skew_one < unat (max_size skew_q) \<and>
   unat (max_size skew_q)
     < unat (write_index skew_one) mod unat (max_size skew_q) + unat (element_size skew_q) \<and>
   shmemq_try_enqueue skew_q skew_one eb 3 = Inr (True, skew_two) \<and>
   drop 4 (data skew_two) = [20, 20, 0, 0, 0, 0, 0] \<and>
   run_calls tri_q (fresh linux tri_q) (rounds tri_q tri tri_buf 6148914691236517205 @ [Enqueue tri 3])
     = Inr (round_outcomes tri 6148914691236517205 @ [Enqueued True], tri_wrapped) \<and>
   write_index tri_wrapped = 2 \<and> \<not> unat (element_size tri_q) dvd unat (write_index tri_wrapped) \<and>
   creates linux smooth boot ''giant_q'' 1 4294967295 giant_q (fresh linux giant_q) \<and>
   fits linux 1 4294967295 \<and> sint (- 1 :: uint) < 0 \<and>
   shmemq_try_enqueue giant_q (fresh linux giant_q) (replicate 4294967295 7) (- 1)
     = Inl OutOfBounds"
proof -
  have "\<not> fits linux 12297829382473034412 3" by (simp add: fits_def linux_def)
  moreover have "unat (max_size skew_q) \<noteq> unat (max_count skew_q) * unat (element_size skew_q)"
    by (simp add: skew_q_def)
  moreover have "used skew_one < unat (max_size skew_q)"
    "unat (max_size skew_q)
       < unat (write_index skew_one) mod unat (max_size skew_q) + unat (element_size skew_q)"
    by (simp_all add: used_def skew_one_def skew_q_def)
  moreover have "drop 4 (data skew_two) = [20, 20, 0, 0, 0, 0, 0]"
    by (simp add: skew_two_def ea_def eb_def numeral_eq_Suc)
  moreover have "run_calls tri_q (fresh linux tri_q)
       (rounds tri_q tri tri_buf 6148914691236517205 @ [Enqueue tri 3])
     = Inr (round_outcomes tri 6148914691236517205 @ [Enqueued True], tri_wrapped)"
    by (simp add: run_calls_append tri_rounds tri_wrap_enqueue)
  moreover have "write_index tri_wrapped = 2"
    "\<not> unat (element_size tri_q) dvd unat (write_index tri_wrapped)"
    by (simp_all add: tri_wrapped_def tri_q_def)
  moreover have "fits linux 1 4294967295" "sint (- 1 :: uint) < 0"
    by (simp_all add: fits_def linux_def)
  ultimately show ?thesis
    using creates_skew_q skew_steps creates_giant_q giant_element(3) by (intro conjI)
qed

text \<open>
  C10 (a failed call changes nothing). Whenever \<^verbatim>\<open>shmemq_try_enqueue\<close> or
  \<^verbatim>\<open>shmemq_try_dequeue\<close> returns false, for a wrong length, a full or an empty queue, the
  segment afterwards is the segment before (read index, write index, payload array), and
  a failed dequeue returns the caller's buffer unchanged.
\<close>

theorem failed_call_changes_nothing:
  "(shmemq_try_enqueue h m el len = Inr (False, m') \<longrightarrow> m' = m) \<and>
   (shmemq_try_dequeue h m out len = Inr (False, m', e) \<longrightarrow> m' = m \<and> e = out)"
  using enqueue_false_same [of h m el len m'] dequeue_false_same [of h m out len m' e]
  by blast

theorem failed_call_changes_nothing_witness:
  "shmemq_try_enqueue bench_q bench_full v5 8
     = Inr (False, bench_full\<lparr>lock := Unlocked Process_Shared\<rparr>) \<and>
   bench_full\<lparr>lock := Unlocked Process_Shared\<rparr> = bench_full \<and>
   shmemq_try_dequeue bench_q (fresh linux bench_q) buf 8
     = Inr (False, (fresh linux bench_q)\<lparr>lock := Unlocked Process_Shared\<rparr>, buf) \<and>
   (fresh linux bench_q)\<lparr>lock := Unlocked Process_Shared\<rparr> = fresh linux bench_q"
proof -
  have enq: "shmemq_try_enqueue bench_q bench_full v5 8
      = Inr (False, bench_full\<lparr>lock := Unlocked Process_Shared\<rparr>)"
    by (simp add: bench_q_def bench_full_def v1_def v2_def v3_def v4_def v5_def
        shmemq_try_enqueue_def pthread_mutex_lock_def pthread_mutex_unlock_def)
  have deq: "shmemq_try_dequeue bench_q (fresh linux bench_q) buf 8
      = Inr (False, (fresh linux bench_q)\<lparr>lock := Unlocked Process_Shared\<rparr>, buf)"
    by (simp add: bench_q_def fresh_def shmemq_try_dequeue_def pthread_mutex_lock_def
        pthread_mutex_unlock_def)
  have "bench_full\<lparr>lock := Unlocked Process_Shared\<rparr> = bench_full"
    by (rule failed_call_changes_nothing [THEN conjunct1, THEN mp, OF enq])
  moreover have "(fresh linux bench_q)\<lparr>lock := Unlocked Process_Shared\<rparr> = fresh linux bench_q"
    by (rule failed_call_changes_nothing [THEN conjunct2, THEN mp, THEN conjunct1, OF deq])
  ultimately show ?thesis using enq deq by (intro conjI)
qed

end
